theory Spec2Isabelle
  imports Complex_Main
begin

section \<open>Python values used by qif\_parser.py\<close>

text \<open>
  A Python \<open>bytes\<close> object is a list of 8-bit characters; a Python \<open>str\<close> is a list of
  Unicode code points. The parser scans bytes and stores decoded \<open>str\<close> values.
\<close>

type_synonym bytes = "char list"
type_synonym pystr = "nat list"

abbreviation LF :: char where "LF \<equiv> CHR 0x0A"
abbreviation CR :: char where "CR \<equiv> CHR 0x0D"
abbreviation QUOTE :: char where "QUOTE \<equiv> CHR 0x27"

datatype error =
    SyntaxError string
  | ValueError
  | KeyError
  | TypeError
  | AttributeError
  | UnicodeDecodeError
  | UnicodeEncodeError

definition is_digit :: "char \<Rightarrow> bool" where
  "is_digit c = (c \<in> set ''0123456789'')"

section \<open>The regular expressions of the record syntax\<close>

text \<open>
  The patterns are byte patterns compiled with \<open>re.M\<close>. They use literals, the dot
  (any byte but line feed), bracket classes and \<open>\d\<close> (ASCII digits in a byte pattern),
  the greedy quantifiers \<open>?\<close>, \<open>*\<close>, \<open>+\<close> and \<open>{4}\<close>, alternation, named and unnamed
  groups, and \<open>$\<close>. Every starred or plussed subpattern is a one-byte matcher, so
  \<open>Star\<close>, \<open>Plus\<close> and \<open>Rep\<close> take a class.
\<close>

datatype citem = Ch char | Digit

datatype cset = Dot | In "citem list"

datatype regex =
    Lit bytes
  | One cset
  | Star cset
  | Plus cset
  | Rep nat cset
  | Seq regex regex
  | Alt regex regex
  | Opt regex
  | Grp "string option" regex
  | Eol

fun seqs :: "regex list \<Rightarrow> regex" where
  "seqs [] = Lit []"
| "seqs [r] = r"
| "seqs (r # rs) = Seq r (seqs rs)"

fun item_match :: "citem \<Rightarrow> char \<Rightarrow> bool" where
  "item_match (Ch c) x = (x = c)"
| "item_match Digit x = is_digit x"

fun cmatch :: "cset \<Rightarrow> char \<Rightarrow> bool" where
  "cmatch Dot x = (x \<noteq> LF)"
| "cmatch (In items) x = (\<exists>i \<in> set items. item_match i x)"

definition run :: "cset \<Rightarrow> bytes \<Rightarrow> nat" where
  "run cs s = length (takeWhile (cmatch cs) s)"

text \<open>
  The state of a match attempt: the spans captured by named groups so far (latest
  first) and the name of the group that closed last (\<open>None\<close> for an unnamed group or
  before any group closes), which is what \<open>m.lastgroup\<close> reads.
\<close>

type_synonym mstate = "(string \<times> bytes) list \<times> string option"

fun close_group :: "string option \<Rightarrow> bytes \<Rightarrow> mstate \<Rightarrow> mstate" where
  "close_group None w (caps, lg) = (caps, None)"
| "close_group (Some n) w (caps, lg) = ((n, w) # caps, Some n)"

text \<open>
  The backtracking matcher, as the list of all ways the pattern matches a prefix of the
  remaining input, in the order in which the engine tries them (greedy first). Each
  result is the input left after the match and the state. The engine returns the
  first one. \<open>$\<close> in multi-line mode matches at the end of the input and before a line
  feed.
\<close>

fun rmatch :: "regex \<Rightarrow> bytes \<Rightarrow> mstate \<Rightarrow> (bytes \<times> mstate) list" where
  "rmatch (Lit w) s st = (if take (length w) s = w then [(drop (length w) s, st)] else [])"
| "rmatch (One cs) s st =
     (case s of [] \<Rightarrow> [] | x # xs \<Rightarrow> if cmatch cs x then [(xs, st)] else [])"
| "rmatch (Star cs) s st = map (\<lambda>k. (drop k s, st)) (rev [0 ..< Suc (run cs s)])"
| "rmatch (Plus cs) s st = map (\<lambda>k. (drop k s, st)) (rev [1 ..< Suc (run cs s)])"
| "rmatch (Rep n cs) s st = (if n \<le> run cs s then [(drop n s, st)] else [])"
| "rmatch (Seq a b) s st = concat (map (\<lambda>(s', st'). rmatch b s' st') (rmatch a s st))"
| "rmatch (Alt a b) s st = rmatch a s st @ rmatch b s st"
| "rmatch (Opt a) s st = rmatch a s st @ [(s, st)]"
| "rmatch (Grp n a) s st =
     map (\<lambda>(s', st'). (s', close_group n (take (length s - length s') s) st')) (rmatch a s st)"
| "rmatch Eol s st = (case s of [] \<Rightarrow> [(s, st)] | x # xs \<Rightarrow> if x = LF then [(s, st)] else [])"

fun group_names :: "regex \<Rightarrow> string list" where
  "group_names (Seq a b) = group_names a @ group_names b"
| "group_names (Alt a b) = group_names a @ group_names b"
| "group_names (Opt a) = group_names a"
| "group_names (Grp (Some n) a) = n # group_names a"
| "group_names (Grp None a) = group_names a"
| "group_names r = []"

text \<open>
  A match object: the end of the matched span (\<open>m.span()[1]\<close>), \<open>m.groupdict()\<close> (every
  named group of the pattern, \<open>None\<close> for one that took no part) and \<open>m.lastgroup\<close>.
\<close>

datatype match_obj =
  Match (m_end: nat) (groupdict: "(string \<times> bytes option) list") (lastgroup: "string option")

text \<open>
  \<open>pattern.match(text, pos)\<close>: the match is anchored at \<open>pos\<close> (a \<open>pos\<close> beyond the end
  is the end).
\<close>

definition re_match :: "regex \<Rightarrow> bytes \<Rightarrow> nat \<Rightarrow> match_obj option" where
  "re_match r text pos =
     (case rmatch r (drop pos text) ([], None) of
        [] \<Rightarrow> None
      | (rest, caps, lg) # _ \<Rightarrow>
          Some (Match (length text - length rest)
                      (map (\<lambda>n. (n, map_of caps n)) (group_names r)) lg))"

definition amount_re :: regex where
  "amount_re = Grp (Some ''amount'')
     (seqs [Opt (Lit ''-''), Plus (In [Digit, Ch (CHR '','')]),
            Opt (Grp None (seqs [Lit ''.'', Plus (In [Digit])]))])"

definition line_end :: "regex list" where
  "line_end = [Opt (One (In [Ch CR])), Eol]"

definition HEADER :: regex where
  "HEADER = seqs (Grp (Some ''HEADER'')
     (seqs [Lit ''!Type'', Grp (Some ''type'') (Star Dot)]) # line_end)"

definition DATE :: regex where
  "DATE = seqs (Grp (Some ''DATE'')
     (seqs [Lit ''D'',
            Grp (Some ''month'')
              (seqs [Opt (One (In [Ch (CHR '' ''), Ch (CHR ''0''), Ch (CHR ''1'')])),
                     One (In [Digit])]),
            Lit ''/'',
            Grp (Some ''day'')
              (seqs [One (In [Ch (CHR '' ''), Ch (CHR ''0''), Ch (CHR ''1''),
                              Ch (CHR ''2''), Ch (CHR ''3'')]),
                     One (In [Digit])]),
            Grp None
              (Alt (Grp None
                      (seqs [Lit [QUOTE],
                             Grp (Some ''year_short'')
                               (seqs [Opt (One (In [Ch (CHR '' '')])), One (In [Digit]),
                                      Opt (One (In [Digit]))])]))
                   (Grp None
                      (seqs [Lit ''/'',
                             Grp (Some ''year_long'') (Rep 4 (In [Digit]))])))]) # line_end)"

definition T_AMOUNT :: regex where
  "T_AMOUNT = seqs (Grp (Some ''T_AMOUNT'') (seqs [Lit ''T'', amount_re]) # line_end)"

definition U_AMOUNT :: regex where
  "U_AMOUNT = seqs (Grp (Some ''U_AMOUNT'') (seqs [Lit ''U'', amount_re]) # line_end)"

definition CLEARED :: regex where
  "CLEARED = seqs (Grp (Some ''CLEARED'')
     (seqs [Lit ''C'',
            Grp (Some ''value'')
              (One (In [Ch (CHR ''*''), Ch (CHR ''c''), Ch (CHR ''X''), Ch (CHR ''R'')]))])
     # line_end)"

definition PAYEE :: regex where
  "PAYEE = seqs (Grp (Some ''PAYEE'')
     (seqs [Lit ''P'', Grp (Some ''value'') (Star Dot)]) # line_end)"

definition MEMO :: regex where
  "MEMO = seqs (Grp (Some ''MEMO'')
     (seqs [Lit ''M'', Grp (Some ''value'') (Star Dot)]) # line_end)"

definition CATEGORY :: regex where
  "CATEGORY = seqs (Grp (Some ''CATEGORY'')
     (seqs [Lit ''L'', Grp (Some ''value'') (Star Dot)]) # line_end)"

definition ADDRESS :: regex where
  "ADDRESS = seqs (Grp (Some ''ADDRESS'')
     (seqs [Lit ''A'', Grp (Some ''value'') (Star Dot)]) # line_end)"

definition N_REC :: regex where
  "N_REC = seqs (Grp (Some ''N_REC'')
     (seqs [Lit ''N'', Grp (Some ''value'') (Star Dot)]) # line_end)"

definition SPLIT :: regex where
  "SPLIT = seqs (Grp (Some ''SPLIT'')
     (seqs [Lit ''S'', Grp (Some ''category'') (Star Dot), Opt (One (In [Ch CR])), Lit [LF],
            Opt (seqs [Lit ''E'', Grp (Some ''memo'') (Star Dot),
                       Opt (One (In [Ch CR])), Lit [LF]]),
            Lit ''$'', amount_re]) # line_end)"

definition END :: regex where
  "END = seqs (Grp (Some ''END'') (Lit ''^'') # line_end)"

definition TTYPE_NORMAL :: string where
  "TTYPE_NORMAL = ''NORMAL''"

definition TTYPE_SPLIT :: string where
  "TTYPE_SPLIT = ''SPLIT''"

definition compiled_record_regexes :: "regex list" where
  "compiled_record_regexes =
     [HEADER, DATE, T_AMOUNT, U_AMOUNT, CLEARED, PAYEE, MEMO, CATEGORY, ADDRESS, N_REC,
      SPLIT, END]"

section \<open>Decoding, encoding and printing\<close>

text \<open>
  \<open>bytes.decode('utf-8')\<close> in strict mode: shortest forms only, no surrogates, nothing
  above U+10FFFF. \<open>None\<close> stands for UnicodeDecodeError.
\<close>

definition is_cont :: "char \<Rightarrow> bool" where
  "is_cont c = (128 \<le> (of_char c :: nat) \<and> (of_char c :: nat) < 192)"

definition cont :: "char \<Rightarrow> nat" where
  "cont c = of_char c - 128"

fun utf8_decode :: "bytes \<Rightarrow> pystr option" where
  "utf8_decode [] = Some []"
| "utf8_decode (b # bs) =
     (let n = (of_char b :: nat) in
      if n < 128 then map_option ((#) n) (utf8_decode bs)
      else if 194 \<le> n \<and> n < 224 then
        (case bs of
           c1 # r \<Rightarrow>
             if is_cont c1 then map_option ((#) ((n - 192) * 64 + cont c1)) (utf8_decode r)
             else None
         | _ \<Rightarrow> None)
      else if 224 \<le> n \<and> n < 240 then
        (case bs of
           c1 # c2 # r \<Rightarrow>
             (let cp = (n - 224) * 4096 + cont c1 * 64 + cont c2 in
              if is_cont c1 \<and> is_cont c2 \<and> 2048 \<le> cp \<and> \<not> (55296 \<le> cp \<and> cp < 57344)
              then map_option ((#) cp) (utf8_decode r) else None)
         | _ \<Rightarrow> None)
      else if 240 \<le> n \<and> n < 245 then
        (case bs of
           c1 # c2 # c3 # r \<Rightarrow>
             (let cp = (n - 240) * 262144 + cont c1 * 4096 + cont c2 * 64 + cont c3 in
              if is_cont c1 \<and> is_cont c2 \<and> is_cont c3 \<and> 65536 \<le> cp \<and> cp < 1114112
              then map_option ((#) cp) (utf8_decode r) else None)
         | _ \<Rightarrow> None)
      else None)"

text \<open>
  \<open>str.encode('utf-8')\<close>: a surrogate code point has no encoding
  (UnicodeEncodeError, here \<open>None\<close>); a Python \<open>str\<close> holds no code point above U+10FFFF.
\<close>

definition encode_cp :: "nat \<Rightarrow> bytes option" where
  "encode_cp cp =
     (if cp < 128 then Some [char_of cp]
      else if cp < 2048 then Some [char_of (192 + cp div 64), char_of (128 + cp mod 64)]
      else if 55296 \<le> cp \<and> cp < 57344 then None
      else if cp < 65536 then
        Some [char_of (224 + cp div 4096), char_of (128 + cp div 64 mod 64),
              char_of (128 + cp mod 64)]
      else if cp < 1114112 then
        Some [char_of (240 + cp div 262144), char_of (128 + cp div 4096 mod 64),
              char_of (128 + cp div 64 mod 64), char_of (128 + cp mod 64)]
      else None)"

fun utf8_encode :: "pystr \<Rightarrow> bytes option" where
  "utf8_encode [] = Some []"
| "utf8_encode (cp # s) =
     (case encode_cp cp of
        None \<Rightarrow> None
      | Some w \<Rightarrow> map_option ((@) w) (utf8_encode s))"

text \<open>\<open>str(n)\<close> for a non-negative integer.\<close>

fun str_nat :: "nat \<Rightarrow> string" where
  "str_nat n =
     (if n < 10 then [char_of (48 + n)] else str_nat (n div 10) @ [char_of (48 + n mod 10)])"

text \<open>
  \<open>repr\<close> of a bytes object, which is what \<open>format\<close> inserts for it: the quote is
  \<open>'\<close> unless the bytes hold a \<open>'\<close> and no \<open>"\<close>; the quote and the backslash are escaped,
  tab, line feed and carriage return are written \<open>\t\<close>, \<open>\n\<close>, \<open>\r\<close>, other bytes
  outside the printable ASCII range as \<open>\xhh\<close>.
\<close>

definition hex_digit :: "nat \<Rightarrow> char" where
  "hex_digit k = ''0123456789abcdef'' ! k"

definition repr_byte :: "char \<Rightarrow> char \<Rightarrow> string" where
  "repr_byte quote c =
     (if c = quote \<or> c = CHR 0x5C then [CHR 0x5C, c]
      else if c = CHR 0x09 then [CHR 0x5C, CHR ''t'']
      else if c = LF then [CHR 0x5C, CHR ''n'']
      else if c = CR then [CHR 0x5C, CHR ''r'']
      else if (of_char c :: nat) < 32 \<or> 127 \<le> (of_char c :: nat) then
        [CHR 0x5C, CHR ''x'', hex_digit ((of_char c :: nat) div 16),
         hex_digit ((of_char c :: nat) mod 16)]
      else [c])"

definition bytes_repr :: "bytes \<Rightarrow> string" where
  "bytes_repr b =
     (let quote = (if QUOTE \<in> set b \<and> CHR 0x22 \<notin> set b then CHR 0x22 else QUOTE)
      in ''b'' @ [quote] @ concat (map (repr_byte quote) b) @ [quote])"

definition error_message :: "nat \<Rightarrow> bytes \<Rightarrow> string" where
  "error_message position rest =
     ''Error at position '' @ str_nat position @ '', '' @ bytes_repr rest"

section \<open>Records and the record scanner\<close>

text \<open>
  \<open>QIFRecord\<close> and \<open>QIFTransaction\<close> are named tuples. A record as scanned holds
  \<open>str\<close> or \<open>None\<close> values; a record after casting holds typed values. The type of
  the values is the parameter.
\<close>

datatype 'v QIFRecord = QIFRecord (rtype: "string option") (value_dict: "(string \<times> 'v) list")

text \<open>
  A \<open>float\<close> is kept as the exact decimal value of the text it was read from (the
  rounding to a double and the sign of zero are not represented); a \<open>datetime.date\<close>
  is year, month, day.
\<close>

datatype pyval = PyNone | PyStr pystr | PyFloat rat | PyDate int int int

datatype QIFTransaction =
  QIFTransaction (t_type: string) (t_records: "pyval QIFRecord list")

fun decode_val :: "bytes option \<Rightarrow> error + pystr option" where
  "decode_val None = Inr None"
| "decode_val (Some val) =
     (case utf8_decode val of None \<Rightarrow> Inl UnicodeDecodeError | Some s \<Rightarrow> Inr (Some s))"

fun decode_dict :: "(string \<times> bytes option) list \<Rightarrow> error + (string \<times> pystr option) list" where
  "decode_dict [] = Inr []"
| "decode_dict ((k, v) # kvs) =
     (case decode_val v of
        Inl e \<Rightarrow> Inl e
      | Inr v' \<Rightarrow> (case decode_dict kvs of Inl e \<Rightarrow> Inl e | Inr d \<Rightarrow> Inr ((k, v') # d)))"

text \<open>The \<open>for\<close> loop over the compiled patterns: the first pattern that matches.\<close>

fun first_match :: "regex list \<Rightarrow> bytes \<Rightarrow> nat \<Rightarrow> match_obj option" where
  "first_match [] text position = None"
| "first_match (record_regex # rest) text position =
     (case re_match record_regex text position of
        Some m \<Rightarrow> Some m
      | None \<Rightarrow> first_match rest text position)"

fun min_len :: "regex \<Rightarrow> nat" where
  "min_len (Lit w) = length w"
| "min_len (One cs) = 1"
| "min_len (Star cs) = 0"
| "min_len (Plus cs) = 1"
| "min_len (Rep n cs) = n"
| "min_len (Seq a b) = min_len a + min_len b"
| "min_len (Alt a b) = min (min_len a) (min_len b)"
| "min_len (Opt a) = 0"
| "min_len (Grp n a) = min_len a"
| "min_len Eol = 0"

lemma run_le: "run cs s \<le> length s"
  by (simp add: run_def length_takeWhile_le)

lemma rmatch_consumes:
  "(s', st') \<in> set (rmatch r s st) \<Longrightarrow> length s' + min_len r \<le> length s"
proof (induction r arbitrary: s st s' st')
  case (Lit w)
  then have w: "take (length w) s = w" and s': "s' = drop (length w) s"
    by (simp_all split: if_splits)
  have "length (take (length w) s) = length w"
    by (simp only: w)
  then have "length w \<le> length s"
    by simp
  with s' show ?case by simp
next
  case (One cs)
  then show ?case by (cases s) (simp_all split: if_splits)
next
  case (Star cs)
  then show ?case by auto
next
  case (Plus cs)
  then obtain k where "s' = drop k s" and "1 \<le> k" and "k \<le> run cs s"
    by auto
  with run_le [of cs s] show ?case by simp
next
  case (Rep n cs)
  then have "s' = drop n s" and "n \<le> run cs s"
    by (simp_all split: if_splits)
  with run_le [of cs s] show ?case by simp
next
  case (Seq a b)
  from Seq.prems obtain s1 st1 where
    a: "(s1, st1) \<in> set (rmatch a s st)" and b: "(s', st') \<in> set (rmatch b s1 st1)"
    by auto
  from Seq.IH(1) [OF a] Seq.IH(2) [OF b] show ?case by simp
next
  case (Alt a b)
  from Alt.prems have "(s', st') \<in> set (rmatch a s st) \<or> (s', st') \<in> set (rmatch b s st)"
    by simp
  then show ?case
  proof
    assume "(s', st') \<in> set (rmatch a s st)"
    from Alt.IH(1) [OF this] show ?thesis by simp
  next
    assume "(s', st') \<in> set (rmatch b s st)"
    from Alt.IH(2) [OF this] show ?thesis by simp
  qed
next
  case (Opt a)
  from Opt.prems have "(s', st') \<in> set (rmatch a s st) \<or> s' = s"
    by auto
  then show ?case
  proof
    assume "(s', st') \<in> set (rmatch a s st)"
    from Opt.IH [OF this] show ?thesis by simp
  qed simp
next
  case (Grp n a)
  from Grp.prems obtain st0 where "(s', st0) \<in> set (rmatch a s st)"
    by auto
  from Grp.IH [OF this] show ?case by simp
next
  case Eol
  then show ?case by (cases s) (simp_all split: if_splits)
qed
lemma re_match_span:
  assumes "re_match r text pos = Some m" and "0 < min_len r"
  shows "pos < m_end m \<and> m_end m \<le> length text"
proof -
  from assms(1) obtain rest caps lg xs where
    hd: "rmatch r (drop pos text) ([], None) = (rest, caps, lg) # xs"
    and m: "m_end m = length text - length rest"
    by (auto simp: re_match_def split: list.splits)
  from hd have "(rest, caps, lg) \<in> set (rmatch r (drop pos text) ([], None))" by simp
  from rmatch_consumes [OF this] assms(2) have "length rest < length text - pos" by simp
  with m show ?thesis by linarith
qed

lemma min_len_patterns: "\<forall>r \<in> set compiled_record_regexes. 0 < min_len r"
  by (simp add: compiled_record_regexes_def HEADER_def DATE_def T_AMOUNT_def U_AMOUNT_def
      CLEARED_def PAYEE_def MEMO_def CATEGORY_def ADDRESS_def N_REC_def SPLIT_def END_def
      line_end_def amount_re_def)

lemma first_match_span:
  "first_match rs text pos = Some m \<Longrightarrow> \<forall>r \<in> set rs. 0 < min_len r \<Longrightarrow>
   pos < m_end m \<and> m_end m \<le> length text"
proof (induction rs)
  case Nil
  then show ?case by simp
next
  case (Cons r rs)
  show ?case
  proof (cases "re_match r text pos")
    case None
    with Cons show ?thesis by simp
  next
    case (Some m')
    with Cons.prems(1) have "m' = m" by simp
    with re_match_span [OF Some] Cons.prems(2) show ?thesis by simp
  qed
qed

text \<open>
  The generator \<open>_recordize\<close>, as the list of the records it yields and the exception
  that ends it, if one does: the consumer sees the records in order and then the
  exception. The loop ends because every match is at least one byte long.
\<close>

function recordize :: "bytes \<Rightarrow> nat \<Rightarrow> pystr option QIFRecord list \<times> error option" where
  "recordize text position =
     (case first_match compiled_record_regexes text position of
        Some m \<Rightarrow>
          (case decode_dict (groupdict m) of
             Inl e \<Rightarrow> ([], Some e)
           | Inr decoded_dict \<Rightarrow>
               (case recordize text (m_end m + 1) of
                  (rs, out) \<Rightarrow> (QIFRecord (lastgroup m) decoded_dict # rs, out)))
      | None \<Rightarrow>
          if position < length text
          then ([], Some (SyntaxError (error_message position (drop position text))))
          else ([], None))"
  by pat_completeness auto
termination
proof (relation "measure (\<lambda>(text, position). length text + 1 - position)")
  show "wf (measure (\<lambda>(text, position). length text + 1 - position))" by simp
next
  fix buf :: bytes and position :: nat and m
  assume "first_match compiled_record_regexes buf position = Some m"
  from first_match_span [OF this min_len_patterns]
  have "position < m_end m" and "m_end m \<le> length buf"
    by simp_all
  then have "length buf + 1 - (m_end m + 1) < length buf + 1 - position"
    by linarith
  then show "((buf, m_end m + 1), (buf, position))
          \<in> measure (\<lambda>(text, position). length text + 1 - position)"
    by simp
qed

declare recordize.simps [simp del]

section \<open>Field casts\<close>

text \<open>
  \<open>int(s)\<close> and \<open>float(s)\<close> on a \<open>str\<close>, for the texts the patterns can capture:
  surrounding white space is stripped, a sign may lead, then come decimal digits (for
  \<open>float\<close> with at most one point and a digit on one side of it at least). Anything
  else is a ValueError. Exponents, underscores, non-ASCII digits, \<open>inf\<close> and \<open>nan\<close>
  cannot be captured by a pattern and are left out.
\<close>

definition is_space :: "nat \<Rightarrow> bool" where
  "is_space c = (c = 32 \<or> (9 \<le> c \<and> c \<le> 13))"

definition is_dig :: "nat \<Rightarrow> bool" where
  "is_dig c = (48 \<le> c \<and> c \<le> 57)"

definition strip :: "pystr \<Rightarrow> pystr" where
  "strip s = rev (dropWhile is_space (rev (dropWhile is_space s)))"

definition dec :: "pystr \<Rightarrow> nat" where
  "dec ds = foldl (\<lambda>a c. 10 * a + (c - 48)) 0 ds"

fun split_sign :: "pystr \<Rightarrow> bool \<times> pystr" where
  "split_sign [] = (False, [])"
| "split_sign (c # r) = (if c = 45 then (True, r) else if c = 43 then (False, r) else (False, c # r))"

definition py_int :: "pystr \<Rightarrow> error + int" where
  "py_int s =
     (case split_sign (strip s) of
        (neg, u) \<Rightarrow>
          if u \<noteq> [] \<and> list_all is_dig u
          then Inr (if neg then - int (dec u) else int (dec u))
          else Inl ValueError)"

definition py_float :: "pystr \<Rightarrow> error + rat" where
  "py_float s =
     (case split_sign (strip s) of
        (neg, u) \<Rightarrow>
          (let ip = takeWhile is_dig u;
               sg = (if neg then - 1 else 1)
           in case dropWhile is_dig u of
                [] \<Rightarrow> if ip \<noteq> [] then Inr (sg * of_nat (dec ip)) else Inl ValueError
              | c # fp \<Rightarrow>
                  if c = 46 \<and> list_all is_dig fp \<and> (ip \<noteq> [] \<or> fp \<noteq> [])
                  then Inr (sg * (of_nat (dec ip) + of_nat (dec fp) / 10 ^ length fp))
                  else Inl ValueError))"

text \<open>\<open>datetime.date(year, month, day)\<close> raises ValueError outside the calendar.\<close>

definition is_leap :: "int \<Rightarrow> bool" where
  "is_leap y = (y mod 4 = 0 \<and> (y mod 100 \<noteq> 0 \<or> y mod 400 = 0))"

definition days_in_month :: "int \<Rightarrow> int \<Rightarrow> int" where
  "days_in_month y m =
     (if m = 2 then (if is_leap y then 29 else 28)
      else if m = 4 \<or> m = 6 \<or> m = 9 \<or> m = 11 then 30 else 31)"

definition py_date :: "int \<Rightarrow> int \<Rightarrow> int \<Rightarrow> error + pyval" where
  "py_date year month day =
     (if 1 \<le> year \<and> year \<le> 9999 \<and> 1 \<le> month \<and> month \<le> 12 \<and>
         1 \<le> day \<and> day \<le> days_in_month year month
      then Inr (PyDate year month day) else Inl ValueError)"

text \<open>
  \<open>d[k]\<close> raises KeyError for a missing key; \<open>int(None)\<close> is a TypeError and
  \<open>None.replace\<close> an AttributeError.
\<close>

definition getitem :: "(string \<times> 'v) list \<Rightarrow> string \<Rightarrow> error + 'v" where
  "getitem d k = (case map_of d k of None \<Rightarrow> Inl KeyError | Some v \<Rightarrow> Inr v)"

definition int_item :: "(string \<times> pystr option) list \<Rightarrow> string \<Rightarrow> error + int" where
  "int_item d k =
     (case getitem d k of
        Inl e \<Rightarrow> Inl e
      | Inr v \<Rightarrow> (case v of None \<Rightarrow> Inl TypeError | Some s \<Rightarrow> py_int s))"

definition float_item :: "(string \<times> pystr option) list \<Rightarrow> string \<Rightarrow> error + rat" where
  "float_item d k =
     (case getitem d k of
        Inl e \<Rightarrow> Inl e
      | Inr v \<Rightarrow>
          (case v of
             None \<Rightarrow> Inl AttributeError
           | Some s \<Rightarrow> py_float (filter (\<lambda>c. c \<noteq> 44) s)))"

fun py_of :: "pystr option \<Rightarrow> pyval" where
  "py_of None = PyNone"
| "py_of (Some s) = PyStr s"

text \<open>Sequencing of computations that may raise: the first exception ends the body.\<close>

definition sum_bind :: "error + 'a \<Rightarrow> ('a \<Rightarrow> error + 'b) \<Rightarrow> error + 'b" where
  "sum_bind x f = (case x of Inl e \<Rightarrow> Inl e | Inr v \<Rightarrow> f v)"

definition cast_date :: "pystr option QIFRecord \<Rightarrow> error + pyval QIFRecord" where
  "cast_date record =
     (let d = value_dict record in
      sum_bind (int_item d ''month'') (\<lambda>month.
      sum_bind (int_item d ''day'') (\<lambda>day.
      sum_bind
        (case map_of d ''year_short'' of
           Some (Some ys) \<Rightarrow>
             sum_bind (py_int ys) (\<lambda>year.
               Inr (if year \<le> 50 then year + 2000
                    else if year > 50 then year + 1900 else year))
         | _ \<Rightarrow> int_item d ''year_long'') (\<lambda>year.
      sum_bind (py_date year month day) (\<lambda>date_val.
      Inr (QIFRecord (rtype record) [(''date'', date_val)]))))))"

definition cast_amount :: "pystr option QIFRecord \<Rightarrow> error + pyval QIFRecord" where
  "cast_amount record =
     (let d = value_dict record in
      sum_bind (float_item d ''amount'') (\<lambda>a.
      Inr (QIFRecord (rtype record) [(''amount'', PyFloat a)])))"

definition cast_split :: "pystr option QIFRecord \<Rightarrow> error + pyval QIFRecord" where
  "cast_split record =
     (let d = value_dict record in
      sum_bind (getitem d ''category'') (\<lambda>c.
      sum_bind (float_item d ''amount'') (\<lambda>a.
      Inr (QIFRecord (rtype record)
             ([(''category'', py_of c), (''amount'', PyFloat a)] @
              (case map_of d ''memo'' of
                 Some (Some memo) \<Rightarrow> [(''memo'', PyStr memo)]
               | _ \<Rightarrow> []))))))"

definition cast_general :: "pystr option QIFRecord \<Rightarrow> error + pyval QIFRecord" where
  "cast_general record =
     sum_bind (getitem (value_dict record) ''value'') (\<lambda>v.
     Inr (QIFRecord (rtype record) [(''value'', py_of v)]))"

definition record_casts ::
  "(string \<times> (pystr option QIFRecord \<Rightarrow> error + pyval QIFRecord)) list" where
  "record_casts =
     [(''DATE'', cast_date),
      (''T_AMOUNT'', cast_amount),
      (''U_AMOUNT'', cast_amount),
      (''CLEARED'', cast_general),
      (''PAYEE'', cast_general),
      (''MEMO'', cast_general),
      (''CATEGORY'', cast_general),
      (''ADDRESS'', cast_general),
      (''N_REC'', cast_general),
      (''SPLIT'', cast_split)]"

section \<open>The transaction builder\<close>

text \<open>
  What \<open>records.append\<close> receives for a record: the cast record when the type has a
  cast, the record as scanned otherwise (its values are \<open>str\<close> or \<open>None\<close>).
\<close>

definition uncast :: "pystr option QIFRecord \<Rightarrow> pyval QIFRecord" where
  "uncast r = QIFRecord (rtype r) (map (\<lambda>(k, v). (k, py_of v)) (value_dict r))"

definition cast_record :: "pystr option QIFRecord \<Rightarrow> error + pyval QIFRecord" where
  "cast_record r =
     (case (case rtype r of None \<Rightarrow> None | Some t \<Rightarrow> map_of record_casts t) of
        Some cast \<Rightarrow> cast r
      | None \<Rightarrow> Inr (uncast r))"

text \<open>
  The body of \<open>parse\<close>'s loop over the records of \<open>_recordize\<close>, with the loop's
  variables \<open>ttype\<close> and \<open>records\<close>. The result is the list of the transactions yielded
  and the exception that ends the iteration, if one does: a cast that raises ends it at
  once; the scanner's exception ends it after the records scanned before it.
\<close>

fun parse_loop ::
  "string \<Rightarrow> pyval QIFRecord list \<Rightarrow> pystr option QIFRecord list \<Rightarrow> error option \<Rightarrow>
   QIFTransaction list \<times> error option" where
  "parse_loop ttype records [] out = ([], out)"
| "parse_loop ttype records (r # rs) out =
     (if rtype r = Some ''END'' then
        (case parse_loop TTYPE_NORMAL [] rs out of
           (ts, e) \<Rightarrow> (QIFTransaction ttype records # ts, e))
      else
        (let ttype' = (if rtype r = Some ''SPLIT'' then TTYPE_SPLIT else ttype) in
         case cast_record r of
           Inl e \<Rightarrow> ([], Some e)
         | Inr r' \<Rightarrow> parse_loop ttype' (records @ [r']) rs out))"

text \<open>The argument of \<open>parse\<close>: a \<open>str\<close> or a bytes-like object.\<close>

datatype pytext = Str pystr | Bytes bytes

definition parse :: "pytext \<Rightarrow> QIFTransaction list \<times> error option" where
  "parse text =
     (case (case text of
              Str s \<Rightarrow> (case utf8_encode s of None \<Rightarrow> Inl UnicodeEncodeError | Some b \<Rightarrow> Inr b)
            | Bytes b \<Rightarrow> Inr b)
      of Inl e \<Rightarrow> ([], Some e)
       | Inr b \<Rightarrow> (case recordize b 0 of (rs, out) \<Rightarrow> parse_loop TTYPE_NORMAL [] rs out))"

text \<open>
  The records of a list that \<open>parse\<close> casts (all but END records) cast without an
  exception.
\<close>

definition casts_ok :: "pystr option QIFRecord list \<Rightarrow> bool" where
  "casts_ok rs = list_all (\<lambda>r. rtype r = Some ''END'' \<or> (case cast_record r of Inl e \<Rightarrow> False | Inr t \<Rightarrow> True)) rs"

text \<open>
  A numeric field of a date as the DATE pattern captures it: an optional space and then
  at most \<open>n\<close> digits, one at least.
\<close>

definition num_field :: "nat \<Rightarrow> bytes \<Rightarrow> bool" where
  "num_field n f =
     (\<exists>sp ds. f = sp @ ds \<and> (sp = [] \<or> sp = '' '') \<and> ds \<noteq> [] \<and> length ds \<le> n \<and>
        (\<forall>c \<in> set ds. is_digit c))"

text \<open>
  What \<open>re.match\<close> returns is the first way of matching that the backtracking search
  finds: the head of the list of successes.
\<close>

definition rfirst :: "regex \<Rightarrow> bytes \<Rightarrow> mstate \<Rightarrow> (bytes \<times> mstate) option" where
  "rfirst r s st = (case rmatch r s st of [] \<Rightarrow> None | x # _ \<Rightarrow> Some x)"

text \<open>
  The memo line of a split block, \<open>E\<close> and the memo and a line feed, which may be
  absent, and the capture it leaves.
\<close>

fun memo_line :: "bytes option \<Rightarrow> bytes" where
  "memo_line None = []"
| "memo_line (Some mb) = ''E'' @ mb @ [LF]"

fun memo_caps :: "bytes option \<Rightarrow> (string \<times> bytes) list" where
  "memo_caps None = []"
| "memo_caps (Some mb) = [(''memo'', mb)]"

section \<open>What a match of a pattern says about the input\<close>

lemma le_run_iff: "k \<le> run cs s \<longleftrightarrow> k \<le> length s \<and> (\<forall>x \<in> set (take k s). cmatch cs x)"
  unfolding run_def
proof (induction s arbitrary: k)
  case Nil
  then show ?case by simp
next
  case (Cons a s)
  show ?case
  proof (cases k)
    case 0
    then show ?thesis by simp
  next
    case (Suc j)
    with Cons [of j] show ?thesis by simp
  qed
qed

lemma in_Lit: "(s', st') \<in> set (rmatch (Lit w) s st) \<longleftrightarrow> s = w @ s' \<and> st' = st"
proof -
  have "take (length w) s = w \<and> s' = drop (length w) s \<longleftrightarrow> s = w @ s'"
    by (metis append_eq_conv_conj)
  then show ?thesis by auto
qed

lemma in_One:
  "(s', st') \<in> set (rmatch (One cs) s st) \<longleftrightarrow> (\<exists>x. s = x # s' \<and> cmatch cs x) \<and> st' = st"
  by (cases s) auto

lemma drop_le_run:
  "(\<exists>k. s' = drop k s \<and> lo \<le> k \<and> k \<le> run cs s) \<longleftrightarrow>
   (\<exists>w. s = w @ s' \<and> lo \<le> length w \<and> (\<forall>x \<in> set w. cmatch cs x))"
proof
  assume "\<exists>k. s' = drop k s \<and> lo \<le> k \<and> k \<le> run cs s"
  then obtain k where k: "s' = drop k s" "lo \<le> k" "k \<le> run cs s" by blast
  then have "k \<le> length s" and "\<forall>x \<in> set (take k s). cmatch cs x"
    by (simp_all add: le_run_iff)
  with k have "s = take k s @ s' \<and> lo \<le> length (take k s) \<and> (\<forall>x \<in> set (take k s). cmatch cs x)"
    by simp
  then show "\<exists>w. s = w @ s' \<and> lo \<le> length w \<and> (\<forall>x \<in> set w. cmatch cs x)" by blast
next
  assume "\<exists>w. s = w @ s' \<and> lo \<le> length w \<and> (\<forall>x \<in> set w. cmatch cs x)"
  then obtain w where w: "s = w @ s'" "lo \<le> length w" "\<forall>x \<in> set w. cmatch cs x" by blast
  then have "s' = drop (length w) s \<and> lo \<le> length w \<and> length w \<le> run cs s"
    by (simp add: le_run_iff)
  then show "\<exists>k. s' = drop k s \<and> lo \<le> k \<and> k \<le> run cs s" by blast
qed

lemma in_image_upt:
  "(s', st') \<in> set (map (\<lambda>k. (drop k s, st)) (rev [lo ..< Suc n])) \<longleftrightarrow>
   (\<exists>k. s' = drop k s \<and> lo \<le> k \<and> k \<le> n) \<and> st' = (st :: mstate)"
proof -
  have "set (map (\<lambda>k. (drop k s, st)) (rev [lo ..< Suc n])) = (\<lambda>k. (drop k s, st)) ` {lo ..< Suc n}"
    by (simp only: set_map set_rev set_upt)
  moreover have "\<And>k. k \<in> {lo ..< Suc n} \<longleftrightarrow> lo \<le> k \<and> k \<le> n"
    by (simp only: atLeastLessThan_iff less_Suc_eq_le)
  ultimately show ?thesis
    by (simp only: image_iff Bex_def prod.inject) metis
qed

lemma in_Star:
  "(s', st') \<in> set (rmatch (Star cs) s st) \<longleftrightarrow>
   (\<exists>w. s = w @ s' \<and> (\<forall>x \<in> set w. cmatch cs x)) \<and> st' = st"
proof -
  have "(\<exists>w. s = w @ s' \<and> 0 \<le> length w \<and> (\<forall>x \<in> set w. cmatch cs x)) \<longleftrightarrow>
        (\<exists>w. s = w @ s' \<and> (\<forall>x \<in> set w. cmatch cs x))"
    by simp
  then show ?thesis
    by (simp only: rmatch.simps in_image_upt drop_le_run)
qed

lemma in_Plus:
  "(s', st') \<in> set (rmatch (Plus cs) s st) \<longleftrightarrow>
   (\<exists>w. s = w @ s' \<and> w \<noteq> [] \<and> (\<forall>x \<in> set w. cmatch cs x)) \<and> st' = st"
proof -
  have "(\<exists>w. s = w @ s' \<and> 1 \<le> length w \<and> (\<forall>x \<in> set w. cmatch cs x)) \<longleftrightarrow>
        (\<exists>w. s = w @ s' \<and> w \<noteq> [] \<and> (\<forall>x \<in> set w. cmatch cs x))"
    by (simp add: Suc_le_eq)
  then show ?thesis
    by (simp only: rmatch.simps in_image_upt drop_le_run)
qed

lemma in_Rep:
  "(s', st') \<in> set (rmatch (Rep n cs) s st) \<longleftrightarrow>
   (\<exists>w. s = w @ s' \<and> length w = n \<and> (\<forall>x \<in> set w. cmatch cs x)) \<and> st' = st"
proof -
  have "(\<exists>w. s = w @ s' \<and> length w = n \<and> (\<forall>x \<in> set w. cmatch cs x)) \<longleftrightarrow>
        n \<le> run cs s \<and> s' = drop n s"
  proof
    assume "\<exists>w. s = w @ s' \<and> length w = n \<and> (\<forall>x \<in> set w. cmatch cs x)"
    then obtain w where "s = w @ s'" "length w = n" "\<forall>x \<in> set w. cmatch cs x" by blast
    then show "n \<le> run cs s \<and> s' = drop n s" by (auto simp: le_run_iff)
  next
    assume a: "n \<le> run cs s \<and> s' = drop n s"
    then have "n \<le> length s" and "\<forall>x \<in> set (take n s). cmatch cs x"
      by (simp_all add: le_run_iff)
    with a have "s = take n s @ s' \<and> length (take n s) = n \<and> (\<forall>x \<in> set (take n s). cmatch cs x)"
      by simp
    then show "\<exists>w. s = w @ s' \<and> length w = n \<and> (\<forall>x \<in> set w. cmatch cs x)" by blast
  qed
  then show ?thesis by auto
qed

lemma in_Seq:
  "(s', st') \<in> set (rmatch (Seq a b) s st) \<longleftrightarrow>
   (\<exists>s1 st1. (s1, st1) \<in> set (rmatch a s st) \<and> (s', st') \<in> set (rmatch b s1 st1))"
  by auto

lemma in_Alt:
  "(s', st') \<in> set (rmatch (Alt a b) s st) \<longleftrightarrow>
   (s', st') \<in> set (rmatch a s st) \<or> (s', st') \<in> set (rmatch b s st)"
  by simp

lemma in_Opt:
  "(s', st') \<in> set (rmatch (Opt a) s st) \<longleftrightarrow>
   (s', st') \<in> set (rmatch a s st) \<or> (s' = s \<and> st' = st)"
  by auto

lemma rmatch_suffix: "(s', st') \<in> set (rmatch r s st) \<Longrightarrow> \<exists>w. s = w @ s'"
proof (induction r arbitrary: s st s' st')
  case (Lit w)
  then show ?case by (simp only: in_Lit) blast
next
  case (One cs)
  then obtain x where "s = x # s'" by (auto simp only: in_One)
  then have "s = [x] @ s'" by simp
  then show ?case by blast
next
  case (Star cs)
  then show ?case by (simp only: in_Star) blast
next
  case (Plus cs)
  then show ?case by (simp only: in_Plus) blast
next
  case (Rep n cs)
  then show ?case by (simp only: in_Rep) blast
next
  case (Seq a b)
  from Seq.prems obtain s1 st1 where
    a: "(s1, st1) \<in> set (rmatch a s st)" and b: "(s', st') \<in> set (rmatch b s1 st1)"
    by (auto simp only: in_Seq)
  from Seq.IH(1) [OF a] Seq.IH(2) [OF b] show ?case by auto
next
  case (Alt a b)
  from Alt.prems Alt.IH show ?case by (simp only: in_Alt) blast
next
  case (Opt a)
  from Opt.prems Opt.IH show ?case by (simp only: in_Opt) blast
next
  case (Grp n a)
  from Grp.prems obtain st0 where "(s', st0) \<in> set (rmatch a s st)" by auto
  from Grp.IH [OF this] show ?case .
next
  case Eol
  then show ?case by (cases s) (simp_all split: if_splits)
qed

lemma in_Grp:
  "(s', st') \<in> set (rmatch (Grp n a) s st) \<longleftrightarrow>
   (\<exists>w st0. s = w @ s' \<and> (s', st0) \<in> set (rmatch a s st) \<and> st' = close_group n w st0)"
proof
  assume "(s', st') \<in> set (rmatch (Grp n a) s st)"
  then obtain st0 where a: "(s', st0) \<in> set (rmatch a s st)"
    and st': "st' = close_group n (take (length s - length s') s) st0"
    by auto
  from rmatch_suffix [OF a] obtain w where w: "s = w @ s'" by blast
  with st' have "st' = close_group n w st0" by simp
  with a w show "\<exists>w st0. s = w @ s' \<and> (s', st0) \<in> set (rmatch a s st) \<and> st' = close_group n w st0"
    by blast
next
  assume "\<exists>w st0. s = w @ s' \<and> (s', st0) \<in> set (rmatch a s st) \<and> st' = close_group n w st0"
  then obtain w st0 where "s = w @ s'" "(s', st0) \<in> set (rmatch a s st)" "st' = close_group n w st0"
    by blast
  then show "(s', st') \<in> set (rmatch (Grp n a) s st)"
    by (auto simp: image_iff intro!: bexI [of _ "(s', st0)"])
qed

lemma in_Eol:
  "(s', st') \<in> set (rmatch Eol s st) \<longleftrightarrow> s' = s \<and> st' = st \<and> (s = [] \<or> (\<exists>xs. s = LF # xs))"
  by (cases s) auto

lemmas in_rmatch = in_Lit in_One in_Star in_Plus in_Rep in_Seq in_Alt in_Opt in_Grp in_Eol

lemma re_matchD:
  assumes "re_match r text pos = Some m"
  shows "\<exists>rest caps lg. (rest, caps, lg) \<in> set (rmatch r (drop pos text) ([], None)) \<and>
           m = Match (length text - length rest)
                 (map (\<lambda>n. (n, map_of caps n)) (group_names r)) lg"
proof (cases "rmatch r (drop pos text) ([], None)")
  case Nil
  with assms show ?thesis by (simp add: re_match_def)
next
  case (Cons x xs)
  obtain rest caps lg where x: "x = (rest, caps, lg)" by (cases x) auto
  with Cons have "(rest, caps, lg) \<in> set (rmatch r (drop pos text) ([], None))" by simp
  moreover from assms Cons x have "m = Match (length text - length rest)
      (map (\<lambda>n. (n, map_of caps n)) (group_names r)) lg"
    by (simp add: re_match_def)
  ultimately show ?thesis by blast
qed

lemma in_line_end:
  "(rest, st') \<in> set (rmatch (seqs line_end) s st) \<longleftrightarrow>
   (\<exists>cr. s = cr @ rest \<and> (cr = [] \<or> cr = [CR]) \<and> (rest = [] \<or> (\<exists>xs. rest = LF # xs))) \<and> st' = st"
proof -
  have "(rest, st') \<in> set (rmatch (seqs line_end) s st) \<longleftrightarrow>
        (rest = s \<or> s = CR # rest) \<and> (rest = [] \<or> (\<exists>xs. rest = LF # xs)) \<and> st' = st"
    by (cases st) (auto simp del: rmatch.simps simp add: line_end_def in_rmatch)
  moreover have "(rest = s \<or> s = CR # rest) \<longleftrightarrow> (\<exists>cr. s = cr @ rest \<and> (cr = [] \<or> cr = [CR]))"
    by auto
  ultimately show ?thesis by blast
qed

lemma in_record_pattern:
  "(rest, st') \<in> set (rmatch (seqs (Grp (Some name) body # line_end)) s st) \<longleftrightarrow>
   (\<exists>w cr caps0 lg0. s = w @ cr @ rest \<and> (cr = [] \<or> cr = [CR]) \<and>
      (rest = [] \<or> (\<exists>xs. rest = LF # xs)) \<and>
      (cr @ rest, caps0, lg0) \<in> set (rmatch body s st) \<and> st' = ((name, w) # caps0, Some name))"
proof -
  have "seqs (Grp (Some name) body # line_end) = Seq (Grp (Some name) body) (seqs line_end)"
    by (simp add: line_end_def)
  then have "(rest, st') \<in> set (rmatch (seqs (Grp (Some name) body # line_end)) s st) \<longleftrightarrow>
    (\<exists>s1 st1. (\<exists>w st0. s = w @ s1 \<and> (s1, st0) \<in> set (rmatch body s st) \<and>
                   st1 = close_group (Some name) w st0) \<and>
       (\<exists>cr. s1 = cr @ rest \<and> (cr = [] \<or> cr = [CR]) \<and>
             (rest = [] \<or> (\<exists>xs. rest = LF # xs))) \<and> st' = st1)"
    by (simp only: in_Seq in_Grp in_line_end)
  also have "\<dots> \<longleftrightarrow> (\<exists>w cr caps0 lg0. s = w @ cr @ rest \<and> (cr = [] \<or> cr = [CR]) \<and>
      (rest = [] \<or> (\<exists>xs. rest = LF # xs)) \<and>
      (cr @ rest, caps0, lg0) \<in> set (rmatch body s st) \<and> st' = ((name, w) # caps0, Some name))"
    (is "?L \<longleftrightarrow> ?R")
  proof
    assume ?L
    then obtain w st0 cr where
      "s = w @ cr @ rest" "(cr @ rest, st0) \<in> set (rmatch body s st)"
      "st' = close_group (Some name) w st0" "cr = [] \<or> cr = [CR]"
      "rest = [] \<or> (\<exists>xs. rest = LF # xs)"
      by blast
    then show ?R by (cases st0) auto
  next
    assume ?R
    then obtain w cr caps0 lg0 where
      "s = w @ cr @ rest" "(cr @ rest, caps0, lg0) \<in> set (rmatch body s st)"
      "st' = close_group (Some name) w (caps0, lg0)" "cr = [] \<or> cr = [CR]"
      "rest = [] \<or> (\<exists>xs. rest = LF # xs)"
      by auto
    then show ?L by blast
  qed
  finally show ?thesis .
qed

lemma re_match_record:
  assumes "re_match (seqs (Grp (Some name) body # line_end)) text pos = Some m"
    and "0 < min_len body"
  shows "\<exists>w cr rest caps0 lg0.
           drop pos text = w @ cr @ rest \<and> w \<noteq> [] \<and> (cr = [] \<or> cr = [CR]) \<and>
           (rest = [] \<or> (\<exists>xs. rest = LF # xs)) \<and>
           (cr @ rest, caps0, lg0) \<in> set (rmatch body (drop pos text) ([], None)) \<and>
           m = Match (pos + length w + length cr)
                 ((name, Some w) # map (\<lambda>n. (n, map_of ((name, w) # caps0) n)) (group_names body))
                 (Some name)"
proof -
  let ?r = "seqs (Grp (Some name) body # line_end)"
  from re_matchD [OF assms(1)] obtain rest caps lg where
    mem: "(rest, caps, lg) \<in> set (rmatch ?r (drop pos text) ([], None))"
    and m: "m = Match (length text - length rest)
                  (map (\<lambda>n. (n, map_of caps n)) (group_names ?r)) lg"
    by blast
  from mem obtain w cr caps0 lg0 where
    s: "drop pos text = w @ cr @ rest" and cr: "cr = [] \<or> cr = [CR]"
    and rest: "rest = [] \<or> (\<exists>xs. rest = LF # xs)"
    and body: "(cr @ rest, caps0, lg0) \<in> set (rmatch body (drop pos text) ([], None))"
    and st: "(caps, lg) = ((name, w) # caps0, Some name)"
    unfolding in_record_pattern by blast
  from rmatch_consumes [OF body] assms(2) s have w: "w \<noteq> []"
    by auto
  with s have "pos < length text"
    by (metis append_is_Nil_conv drop_eq_Nil not_le)
  moreover from s have "length text - pos = length w + length cr + length rest"
    by (metis length_append length_drop add.assoc)
  ultimately have e: "length text - length rest = pos + length w + length cr"
    by linarith
  have g: "group_names ?r = name # group_names body"
    by (simp add: line_end_def)
  from m st e g have "m = Match (pos + length w + length cr)
                 ((name, Some w) # map (\<lambda>n. (n, map_of ((name, w) # caps0) n)) (group_names body))
                 (Some name)"
    by simp
  with s w cr rest body show ?thesis by blast
qed

lemma first_match_iff:
  "first_match rs text pos = Some m \<longleftrightarrow>
   (\<exists>i < length rs. re_match (rs ! i) text pos = Some m \<and>
      (\<forall>j < i. re_match (rs ! j) text pos = None))"
proof (induction rs)
  case Nil
  then show ?case by simp
next
  case (Cons r rs)
  show ?case
  proof (cases "re_match r text pos")
    case None
    have "(\<exists>i < length (r # rs). re_match ((r # rs) ! i) text pos = Some m \<and>
            (\<forall>j < i. re_match ((r # rs) ! j) text pos = None)) \<longleftrightarrow>
          (\<exists>i < length rs. re_match (rs ! i) text pos = Some m \<and>
            (\<forall>j < i. re_match (rs ! j) text pos = None))" (is "?L \<longleftrightarrow> ?R")
    proof
      assume ?L
      then obtain i where i: "i < length (r # rs)" "re_match ((r # rs) ! i) text pos = Some m"
        "\<forall>j < i. re_match ((r # rs) ! j) text pos = None" by blast
      with None obtain k where k: "i = Suc k" by (cases i) auto
      with i have "k < length rs" "re_match (rs ! k) text pos = Some m" by simp_all
      moreover from i(3) k have "\<forall>j < k. re_match (rs ! j) text pos = None"
        by (metis Suc_less_eq nth_Cons_Suc)
      ultimately show ?R by blast
    next
      assume ?R
      then obtain k where k: "k < length rs" "re_match (rs ! k) text pos = Some m"
        "\<forall>j < k. re_match (rs ! j) text pos = None" by blast
      have "\<forall>j < Suc k. re_match ((r # rs) ! j) text pos = None"
      proof (intro allI impI)
        fix j assume "j < Suc k"
        with None k(3) show "re_match ((r # rs) ! j) text pos = None"
          by (cases j) simp_all
      qed
      with k(1,2) have "Suc k < length (r # rs) \<and> re_match ((r # rs) ! Suc k) text pos = Some m \<and>
          (\<forall>j < Suc k. re_match ((r # rs) ! j) text pos = None)" by simp
      then show ?L by blast
    qed
    with None Cons show ?thesis by simp
  next
    case (Some m')
    have "(\<exists>i < length (r # rs). re_match ((r # rs) ! i) text pos = Some m \<and>
            (\<forall>j < i. re_match ((r # rs) ! j) text pos = None)) \<longleftrightarrow> m' = m" (is "?L \<longleftrightarrow> _")
    proof
      assume ?L
      then obtain i where i: "i < length (r # rs)" "re_match ((r # rs) ! i) text pos = Some m"
        "\<forall>j < i. re_match ((r # rs) ! j) text pos = None" by blast
      have "i = 0"
      proof (rule ccontr)
        assume "i \<noteq> 0"
        with i(3) have "re_match ((r # rs) ! 0) text pos = None" by blast
        with Some show False by simp
      qed
      with i(2) Some show "m' = m" by simp
    next
      assume "m' = m"
      with Some have "0 < length (r # rs) \<and> re_match ((r # rs) ! 0) text pos = Some m \<and>
          (\<forall>j < 0. re_match ((r # rs) ! j) text pos = None)" by simp
      then show ?L by blast
    qed
    with Some show ?thesis by simp
  qed
qed

lemma pattern_cases:
  assumes "r \<in> set compiled_record_regexes"
  obtains name body where "r = seqs (Grp (Some name) body # line_end)" and "0 < min_len body"
proof -
  from assms consider "r = HEADER" | "r = DATE" | "r = T_AMOUNT" | "r = U_AMOUNT"
    | "r = CLEARED" | "r = PAYEE" | "r = MEMO" | "r = CATEGORY" | "r = ADDRESS" | "r = N_REC"
    | "r = SPLIT" | "r = END"
    by (auto simp: compiled_record_regexes_def)
  then show thesis
  proof cases
    case 1 show thesis by (rule that [OF 1 [unfolded HEADER_def]]) simp
  next
    case 2 show thesis by (rule that [OF 2 [unfolded DATE_def]]) simp
  next
    case 3 show thesis by (rule that [OF 3 [unfolded T_AMOUNT_def]]) (simp add: amount_re_def)
  next
    case 4 show thesis by (rule that [OF 4 [unfolded U_AMOUNT_def]]) (simp add: amount_re_def)
  next
    case 5 show thesis by (rule that [OF 5 [unfolded CLEARED_def]]) simp
  next
    case 6 show thesis by (rule that [OF 6 [unfolded PAYEE_def]]) simp
  next
    case 7 show thesis by (rule that [OF 7 [unfolded MEMO_def]]) simp
  next
    case 8 show thesis by (rule that [OF 8 [unfolded CATEGORY_def]]) simp
  next
    case 9 show thesis by (rule that [OF 9 [unfolded ADDRESS_def]]) simp
  next
    case 10 show thesis by (rule that [OF 10 [unfolded N_REC_def]]) simp
  next
    case 11 show thesis by (rule that [OF 11 [unfolded SPLIT_def]]) (simp add: amount_re_def)
  next
    case 12 show thesis by (rule that [OF 12 [unfolded END_def]]) simp
  qed
qed

lemma first_match_record:
  assumes "first_match compiled_record_regexes text pos = Some m"
  shows "\<exists>name w cr rest.
           lastgroup m = Some name \<and> hd (groupdict m) = (name, Some w) \<and> w \<noteq> [] \<and>
           drop pos text = w @ cr @ rest \<and> (cr = [] \<or> cr = [CR]) \<and>
           (rest = [] \<or> (\<exists>xs. rest = LF # xs)) \<and> m_end m = pos + length w + length cr"
proof -
  from assms obtain i where i: "i < length compiled_record_regexes"
    and mi: "re_match (compiled_record_regexes ! i) text pos = Some m"
    unfolding first_match_iff by blast
  from i have "compiled_record_regexes ! i \<in> set compiled_record_regexes" by simp
  then obtain name body where r: "compiled_record_regexes ! i = seqs (Grp (Some name) body # line_end)"
    and b: "0 < min_len body"
    by (rule pattern_cases)
  from re_match_record [OF mi [unfolded r] b] obtain w cr rest caps0 lg0 where
    "drop pos text = w @ cr @ rest" "w \<noteq> []" "cr = [] \<or> cr = [CR]"
    "rest = [] \<or> (\<exists>xs. rest = LF # xs)"
    and m: "m = Match (pos + length w + length cr)
              ((name, Some w) # map (\<lambda>n. (n, map_of ((name, w) # caps0) n)) (group_names body))
              (Some name)"
    by blast
  moreover from m have "lastgroup m = Some name" "hd (groupdict m) = (name, Some w)"
    "m_end m = pos + length w + length cr"
    by simp_all
  ultimately show ?thesis by blast
qed








lemma utf8_decode_ascii:
  "\<forall>c \<in> set b. (of_char c :: nat) < 128 \<Longrightarrow> utf8_decode b = Some (map of_char b)"
  by (induction b) simp_all

declare utf8_decode.simps [simp del]

lemma is_digit_ascii: "is_digit c \<Longrightarrow> (of_char c :: nat) < 128"
  by (auto simp: is_digit_def)

lemma is_digit_is_dig: "is_digit c \<Longrightarrow> is_dig (of_char c)"
  by (auto simp: is_digit_def is_dig_def)


lemma strip_id:
  assumes "s = [] \<or> (\<not> is_space (hd s) \<and> \<not> is_space (last s))"
  shows "strip s = s"
proof (cases "s = []")
  case True
  then show ?thesis by (simp add: strip_def)
next
  case False
  with assms have h: "\<not> is_space (hd s)" and l: "\<not> is_space (last s)" by simp_all
  from False h have 1: "dropWhile is_space s = s"
    by (cases s) simp_all
  from False l have 2: "dropWhile is_space (rev s) = rev s"
    by (cases "rev s") (simp_all add: last_rev [symmetric] del: last_rev)
  from 1 2 show ?thesis by (simp add: strip_def)
qed

lemma strip_no_space: "\<forall>c \<in> set s. \<not> is_space c \<Longrightarrow> strip s = s"
  by (rule strip_id) (cases "s = []", simp_all)

lemma split_sign_plain: "u = [] \<or> (hd u \<noteq> 45 \<and> hd u \<noteq> 43) \<Longrightarrow> split_sign u = (False, u)"
  by (cases u) simp_all

lemma py_float_decimal:
  assumes sg: "sg = [] \<or> sg = [45]"
    and ds: "list_all is_dig ds" and fs: "list_all is_dig fs"
    and pt: "pt = [] \<and> fs = [] \<or> pt = [46] \<and> fs \<noteq> []"
  shows "py_float (sg @ ds @ pt @ fs) =
           (if ds = [] \<and> fs = [] then Inl ValueError
            else Inr ((if sg = [] then 1 else - 1) *
                      (of_nat (dec ds) + of_nat (dec fs) / 10 ^ length fs)))"
proof -
  let ?u = "ds @ pt @ fs"
  have nd: "\<not> is_dig 46" "\<not> is_dig 45" "\<not> is_space 46" "\<not> is_space 45"
    by (simp_all add: is_dig_def is_space_def)
  have dsp: "\<And>c. is_dig c \<Longrightarrow> \<not> is_space c \<and> c \<noteq> 45 \<and> c \<noteq> 43"
    by (auto simp: is_dig_def is_space_def)
  from sg ds fs pt nd dsp have "\<forall>c \<in> set (sg @ ?u). \<not> is_space c"
    by (auto simp: list_all_iff)
  then have st: "strip (sg @ ?u) = sg @ ?u" by (rule strip_no_space)
  have hd_u: "?u = [] \<or> (hd ?u \<noteq> 45 \<and> hd ?u \<noteq> 43)"
  proof (cases ds)
    case Nil
    with pt show ?thesis by auto
  next
    case (Cons d ds')
    with ds dsp [of d] show ?thesis by simp
  qed
  have ss: "split_sign (sg @ ?u) = (sg \<noteq> [], ?u)"
  proof (cases "sg = []")
    case True
    with split_sign_plain [OF hd_u] show ?thesis by simp
  next
    case False
    with sg have "sg = [45]" by simp
    then show ?thesis by simp
  qed
  from pt nd have tw0: "takeWhile is_dig (pt @ fs) = []" and dw0: "dropWhile is_dig (pt @ fs) = pt @ fs"
    by auto
  from ds have tw: "takeWhile is_dig ?u = ds" and dw: "dropWhile is_dig ?u = pt @ fs"
    using tw0 dw0 by (simp_all add: list_all_iff)
  have pf: "py_float (sg @ ?u) =
      (case pt @ fs of
         [] \<Rightarrow> if ds \<noteq> [] then Inr ((if sg \<noteq> [] then - 1 else 1) * of_nat (dec ds))
               else Inl ValueError
       | c # fp \<Rightarrow>
           if c = 46 \<and> list_all is_dig fp \<and> (ds \<noteq> [] \<or> fp \<noteq> [])
           then Inr ((if sg \<noteq> [] then - 1 else 1) *
                     (of_nat (dec ds) + of_nat (dec fp) / 10 ^ length fp))
           else Inl ValueError)"
    unfolding py_float_def st ss by (simp only: prod.case Let_def tw dw)
  show ?thesis
  proof (cases "pt = []")
    case True
    with pt have "fs = []" by simp
    with True show ?thesis
      unfolding pf by (simp add: dec_def)
  next
    case False
    with pt have p: "pt = [46]" "fs \<noteq> []" by simp_all
    with fs show ?thesis
      unfolding pf by simp
  qed
qed

lemma comma_or_digit:
  assumes "is_digit c \<or> c = CHR '',''"
  shows "((of_char c :: nat) \<noteq> 44) = is_digit c"
proof (cases "is_digit c")
  case True
  from is_digit_is_dig [OF True] have "(of_char c :: nat) \<noteq> 44"
    by (simp add: is_dig_def)
  with True show ?thesis by simp
next
  case False
  with assms have "c = CHR '',''" by simp
  with False show ?thesis by simp
qed

lemma filter_commas:
  assumes "\<forall>c \<in> set body. is_digit c \<or> c = CHR '',''"
  shows "filter (\<lambda>c. c \<noteq> 44) (map of_char body) = (map of_char (filter is_digit body) :: nat list)"
    and "list_all is_dig (map of_char (filter is_digit body))"
proof -
  show "filter (\<lambda>c. c \<noteq> 44) (map of_char body) = (map of_char (filter is_digit body) :: nat list)"
    using assms
  proof (induction body)
    case Nil
    then show ?case by simp
  next
    case (Cons c body)
    then have "is_digit c \<or> c = CHR '',''" by simp
    from comma_or_digit [OF this] Cons show ?case by simp
  qed
  show "list_all is_dig (map of_char (filter is_digit body))"
    by (induction body) (simp_all add: is_digit_is_dig)
qed

lemma filter_digits:
  assumes "\<forall>c \<in> set fs. is_digit c"
  shows "filter (\<lambda>c. c \<noteq> 44) (map of_char fs) = (map of_char fs :: nat list)"
    and "list_all is_dig (map of_char fs)"
proof -
  from assms have "\<forall>c \<in> set fs. is_digit c \<or> c = CHR '',''" by simp
  from filter_commas [OF this] assms show
    "filter (\<lambda>c. c \<noteq> 44) (map of_char fs) = (map of_char fs :: nat list)"
    "list_all is_dig (map of_char fs)"
    by (simp_all add: filter_id_conv)
qed

lemma float_item_some:
  "map_of d k = Some (Some v) \<Longrightarrow> float_item d k = py_float (filter (\<lambda>c. c \<noteq> 44) v)"
  by (simp add: float_item_def getitem_def)






lemma num_field_space2: "is_digit c \<Longrightarrow> is_digit d \<Longrightarrow> num_field 2 [CHR '' '', c, d]"
  unfolding num_field_def by (intro exI [of _ "'' ''"] exI [of _ "[c, d]"]) simp
















section \<open>The record recognizer\<close>

text \<open>
  Claim C2. When the loop over the patterns finds a match at a cursor, it is the match
  of the first pattern, in the order HEADER, DATE, T\_AMOUNT, U\_AMOUNT, CLEARED, PAYEE,
  MEMO, CATEGORY, ADDRESS, N\_REC, SPLIT, END, that matches at the cursor. The match is
  anchored: the text of the record (the group that carries the record's name) and the
  optional carriage return after it are the bytes of the input that start at the
  cursor, and the span ends where they end. The scanner goes on at the end of the span
  plus one.
\<close>

theorem first_pattern_wins:
  assumes "first_match compiled_record_regexes text pos = Some m"
  shows "(\<exists>i < length compiled_record_regexes.
            re_match (compiled_record_regexes ! i) text pos = Some m \<and>
            (\<forall>j < i. re_match (compiled_record_regexes ! j) text pos = None))
       \<and> compiled_record_regexes =
           [HEADER, DATE, T_AMOUNT, U_AMOUNT, CLEARED, PAYEE, MEMO, CATEGORY, ADDRESS, N_REC,
            SPLIT, END]
       \<and> (\<exists>name w cr. lastgroup m = Some name \<and> hd (groupdict m) = (name, Some w) \<and>
            w \<noteq> [] \<and> take (length (w @ cr)) (drop pos text) = w @ cr \<and>
            (cr = [] \<or> cr = [CR]) \<and> m_end m = pos + length (w @ cr))
       \<and> recordize text pos =
           (case decode_dict (groupdict m) of
              Inl e \<Rightarrow> ([], Some e)
            | Inr d \<Rightarrow> (QIFRecord (lastgroup m) d # fst (recordize text (m_end m + 1)),
                         snd (recordize text (m_end m + 1))))"
proof -
  from assms have 1: "\<exists>i < length compiled_record_regexes.
            re_match (compiled_record_regexes ! i) text pos = Some m \<and>
            (\<forall>j < i. re_match (compiled_record_regexes ! j) text pos = None)"
    by (simp only: first_match_iff)
  from first_match_record [OF assms] obtain name w cr rest where
    f: "lastgroup m = Some name" "hd (groupdict m) = (name, Some w)" "w \<noteq> []"
      "drop pos text = w @ cr @ rest" "cr = [] \<or> cr = [CR]" "m_end m = pos + length w + length cr"
    by blast
  from f(4) have "take (length (w @ cr)) (drop pos text) = w @ cr"
    by simp
  with f have 3: "\<exists>name w cr. lastgroup m = Some name \<and> hd (groupdict m) = (name, Some w) \<and>
            w \<noteq> [] \<and> take (length (w @ cr)) (drop pos text) = w @ cr \<and>
            (cr = [] \<or> cr = [CR]) \<and> m_end m = pos + length (w @ cr)"
    by (intro exI [of _ name] exI [of _ w] exI [of _ cr]) (simp add: add.assoc)
  have 4: "recordize text pos =
           (case decode_dict (groupdict m) of
              Inl e \<Rightarrow> ([], Some e)
            | Inr d \<Rightarrow> (QIFRecord (lastgroup m) d # fst (recordize text (m_end m + 1)),
                         snd (recordize text (m_end m + 1))))"
    by (subst recordize.simps) (simp add: assms case_prod_beta split: sum.splits)
  from 1 3 4 show ?thesis
    by (simp add: compiled_record_regexes_def)
qed

theorem first_pattern_wins_witness:
  "(\<exists>i < length compiled_record_regexes.
      re_match (compiled_record_regexes ! i) (''PA'' @ [CR, LF] @ ''^'') 0 =
        Some (Match 3 [(''PAYEE'', Some (''PA'' @ [CR])), (''value'', Some (''A'' @ [CR]))] (Some ''PAYEE'')) \<and>
      (\<forall>j < i. re_match (compiled_record_regexes ! j) (''PA'' @ [CR, LF] @ ''^'') 0 = None))
   \<and> recordize (''PA'' @ [CR, LF] @ ''^'') 0 =
        (QIFRecord (Some ''PAYEE'') [(''PAYEE'', Some [80, 65, 13]), (''value'', Some [65, 13])]
           # fst (recordize (''PA'' @ [CR, LF] @ ''^'') 4),
         snd (recordize (''PA'' @ [CR, LF] @ ''^'') 4))"
proof -
  have h: "first_match compiled_record_regexes (''PA'' @ [CR, LF] @ ''^'') 0 =
       Some (Match 3 [(''PAYEE'', Some (''PA'' @ [CR])), (''value'', Some (''A'' @ [CR]))] (Some ''PAYEE''))"
    by code_simp
  have d: "decode_dict [(''PAYEE'', Some (''PA'' @ [CR])), (''value'', Some (''A'' @ [CR]))] =
        Inr [(''PAYEE'', Some [80, 65, 13]), (''value'', Some [65, 13])]"
    by code_simp
  from first_pattern_wins [OF h] d show ?thesis
    by simp
qed

text \<open>
  Claim C8, as the code has it. A record is accepted only when its span (the record's
  text and an optional carriage return) is followed by a line feed or by the end of
  the input.
\<close>

theorem record_ends_at_line_end:
  assumes "first_match compiled_record_regexes text pos = Some m"
  shows "m_end m \<le> length text \<and> (m_end m = length text \<or> text ! m_end m = LF)"
proof -
  from first_match_record [OF assms] obtain w cr rest where
    s: "drop pos text = w @ cr @ rest" and rest: "rest = [] \<or> (\<exists>xs. rest = LF # xs)"
    and e: "m_end m = pos + length w + length cr" and w: "w \<noteq> []"
    by blast
  from s w have pos: "pos \<le> length text"
    by (metis append_is_Nil_conv drop_eq_Nil nat_le_linear)
  from s have len: "length text - pos = length w + length cr + length rest"
    by (metis length_append length_drop add.assoc)
  with pos e have le: "m_end m \<le> length text" by linarith
  from rest show ?thesis
  proof
    assume "rest = []"
    with len have "length text - pos = length w + length cr" by simp
    with pos e have "m_end m = length text" by linarith
    with le show ?thesis by simp
  next
    assume "\<exists>xs. rest = LF # xs"
    then obtain xs where xs: "rest = LF # xs" by blast
    have "text ! (pos + (length w + length cr)) = drop pos text ! (length w + length cr)"
      using pos by simp
    also have "\<dots> = ((w @ cr) @ rest) ! length (w @ cr)"
      using s by simp
    also have "\<dots> = LF"
      using xs by (simp only: nth_append_length)
    finally show ?thesis using e le by (simp add: add.assoc)
  qed
qed

theorem record_ends_at_line_end_witness:
  "m_end (Match 2 [(''END'', Some ''^'')] (Some ''END'')) \<le> length (''^'' @ [CR, LF] @ ''^'') \<and>
   (m_end (Match 2 [(''END'', Some ''^'')] (Some ''END'')) = length (''^'' @ [CR, LF] @ ''^'') \<or>
    (''^'' @ [CR, LF] @ ''^'') ! m_end (Match 2 [(''END'', Some ''^'')] (Some ''END'')) = LF)"
proof -
  have "first_match compiled_record_regexes (''^'' @ [CR, LF] @ ''^'') 0 =
          Some (Match 2 [(''END'', Some ''^'')] (Some ''END''))"
    by code_simp
  from record_ends_at_line_end [OF this] show ?thesis .
qed

text \<open>
  Claim C8 as stated asks for a line feed after every accepted record. The input \<open>^\<close>
  with no line feed is accepted as an END record: \<open>$\<close> also matches at the end of the
  input.
\<close>

theorem no_line_feed_counterexample:
  "first_match compiled_record_regexes ''^'' 0 = Some (Match 1 [(''END'', Some ''^'')] (Some ''END''))
   \<and> length ''^'' = 1
   \<and> parse (Bytes ''^'') = ([QIFTransaction ''NORMAL'' []], None)"
  by code_simp

section \<open>Casting recognized records\<close>






section \<open>Split blocks\<close>

lemma re_match_rfirst:
  "rfirst r (drop pos inp) ([], None) = Some (rest, caps, lg) \<Longrightarrow>
   re_match r inp pos =
     Some (Match (length inp - length rest) (map (\<lambda>n. (n, map_of caps n)) (group_names r)) lg)"
  by (simp add: re_match_def rfirst_def split: list.splits)

lemma rfirst_Lit: "rfirst (Lit w) (w @ s) st = Some (s, st)"
  by (simp add: rfirst_def)

lemma rfirst_Seq:
  "rfirst a s st = Some (s1, st1) \<Longrightarrow> rfirst b s1 st1 = Some y \<Longrightarrow> rfirst (Seq a b) s st = Some y"
  by (auto simp: rfirst_def split: list.splits)

lemma rfirst_Opt_take: "rfirst a s st = Some y \<Longrightarrow> rfirst (Opt a) s st = Some y"
  by (auto simp: rfirst_def split: list.splits)

lemma rfirst_Opt_skip: "rmatch a s st = [] \<Longrightarrow> rfirst (Opt a) s st = Some (s, st)"
  by (simp add: rfirst_def)

lemma rfirst_Grp:
  "rfirst a (w @ s') st = Some (s', st') \<Longrightarrow>
   rfirst (Grp n a) (w @ s') st = Some (s', close_group n w st')"
  by (auto simp: rfirst_def split: list.splits)

lemma rfirst_Eol: "s = [] \<or> (\<exists>xs. s = LF # xs) \<Longrightarrow> rfirst Eol s st = Some (s, st)"
  by (auto simp: rfirst_def)

lemma run_prefix:
  assumes "\<forall>x \<in> set w. cmatch cs x" and "s = [] \<or> \<not> cmatch cs (hd s)"
  shows "run cs (w @ s) = length w"
proof -
  from assms(2) have "takeWhile (cmatch cs) s = []" by (cases s) simp_all
  with assms(1) show ?thesis by (simp add: run_def takeWhile_append2)
qed

lemma rfirst_Star:
  assumes "\<forall>x \<in> set w. cmatch cs x" and "s = [] \<or> \<not> cmatch cs (hd s)"
  shows "rfirst (Star cs) (w @ s) st = Some (s, st)"
  by (simp add: rfirst_def run_prefix [OF assms])

lemma rfirst_Plus:
  assumes "\<forall>x \<in> set w. cmatch cs x" and "s = [] \<or> \<not> cmatch cs (hd s)" and "w \<noteq> []"
  shows "rfirst (Plus cs) (w @ s) st = Some (s, st)"
proof -
  from assms(3) have "1 \<le> length w" by (cases w) simp_all
  then have "[1 ..< Suc (length w)] = [1 ..< length w] @ [length w]" by simp
  then show ?thesis by (simp add: rfirst_def run_prefix [OF assms(1,2)])
qed

lemma rmatch_One_fail: "s = [] \<or> \<not> cmatch cs (hd s) \<Longrightarrow> rmatch (One cs) s st = []"
  by (cases s) simp_all

lemma rmatch_Lit_fail: "s = [] \<or> hd s \<noteq> c \<Longrightarrow> rmatch (Lit (c # w)) s st = []"
  by (cases s) auto

lemma rmatch_Seq_fail: "rmatch a s st = [] \<Longrightarrow> rmatch (Seq a b) s st = []"
  by simp

lemma rmatch_Grp_fail: "rmatch a s st = [] \<Longrightarrow> rmatch (Grp n a) s st = []"
  by simp

lemma digit_comma_class:
  "cmatch (In [Digit, Ch (CHR '','')]) x \<longleftrightarrow> is_digit x \<or> x = CHR '',''"
  by auto

lemma digit_class: "cmatch (In [Digit]) x \<longleftrightarrow> is_digit x"
  by simp

lemma not_digit_chars:
  "\<not> is_digit (CHR ''.'')" "\<not> is_digit CR" "\<not> is_digit LF" "\<not> is_digit (CHR ''-'')"
  "\<not> is_digit (CHR '','')"
  by (simp_all add: is_digit_def)

lemma rfirst_amount_re:
  assumes sg: "sg = [] \<or> sg = ''-''"
    and body: "body \<noteq> []" "\<forall>c \<in> set body. is_digit c \<or> c = CHR '',''"
    and point: "point = [] \<and> fs = [] \<or> point = ''.'' \<and> fs \<noteq> []"
    and fs: "\<forall>c \<in> set fs. is_digit c"
    and t: "t = [] \<or> hd t = CR \<or> hd t = LF"
  shows "rfirst amount_re (sg @ body @ point @ fs @ t) (caps, lg) =
           Some (t, ((''amount'', sg @ body @ point @ fs) # caps, Some ''amount''))"
proof -
  let ?A = "Opt (Lit ''-'')" and ?B = "Plus (In [Digit, Ch (CHR '','')])"
  let ?C = "Opt (Grp None (Seq (Lit ''.'') (Plus (In [Digit]))))"
  have tnd: "t = [] \<or> \<not> is_digit (hd t)" and tnc: "t = [] \<or> hd t \<noteq> CHR '',''"
    and tnp: "t = [] \<or> hd t \<noteq> CHR ''.''"
    using t not_digit_chars by auto
  \<comment> \<open>the sign\<close>
  have A: "rfirst ?A (sg @ body @ point @ fs @ t) (caps, lg) = Some (body @ point @ fs @ t, (caps, lg))"
  proof (cases "sg = []")
    case True
    from body have "hd (body @ point @ fs @ t) \<noteq> CHR ''-''"
      using not_digit_chars by (cases body) auto
    then have "rmatch (Lit ''-'') (body @ point @ fs @ t) (caps, lg) = []"
      by (intro rmatch_Lit_fail) simp
    from rfirst_Opt_skip [OF this] True show ?thesis by simp
  next
    case False
    with sg have "sg = ''-''" by simp
    with rfirst_Opt_take [OF rfirst_Lit [of "''-''" "body @ point @ fs @ t" "(caps, lg)"]]
    show ?thesis by simp
  qed
  \<comment> \<open>digits and commas\<close>
  have nxt: "point @ fs @ t = [] \<or> \<not> cmatch (In [Digit, Ch (CHR '','')]) (hd (point @ fs @ t))"
  proof (cases "point = []")
    case True
    with point have "fs = []" by simp
    with True tnd tnc show ?thesis unfolding digit_comma_class by auto
  next
    case False
    with point have "point = ''.''" by simp
    then show ?thesis unfolding digit_comma_class using not_digit_chars by simp
  qed
  have B: "rfirst ?B (body @ point @ fs @ t) (caps, lg) = Some (point @ fs @ t, (caps, lg))"
    using body(2) nxt body(1) unfolding digit_comma_class [symmetric]
    by (rule rfirst_Plus)
  \<comment> \<open>the fraction\<close>
  have C: "\<exists>lg'. rfirst ?C (point @ fs @ t) (caps, lg) = Some (t, (caps, lg'))"
  proof (cases "point = []")
    case True
    with point have f: "fs = []" by simp
    from tnp have "rmatch (Lit ''.'') t (caps, lg) = []" by (intro rmatch_Lit_fail) simp
    then have "rmatch (Grp None (Seq (Lit ''.'') (Plus (In [Digit])))) t (caps, lg) = []"
      by (intro rmatch_Grp_fail rmatch_Seq_fail)
    from rfirst_Opt_skip [OF this] True f show ?thesis by simp
  next
    case False
    with point have p: "point = ''.''" "fs \<noteq> []" by simp_all
    have "t = [] \<or> \<not> cmatch (In [Digit]) (hd t)" using tnd by simp
    with fs p(2) have "rfirst (Plus (In [Digit])) (fs @ t) (caps, lg) = Some (t, (caps, lg))"
      unfolding digit_class [symmetric] by (intro rfirst_Plus)
    with rfirst_Lit [of "''.''" "fs @ t" "(caps, lg)"]
    have "rfirst (Seq (Lit ''.'') (Plus (In [Digit]))) ((''.'' @ fs) @ t) (caps, lg) = Some (t, (caps, lg))"
      by (intro rfirst_Seq) simp_all
    from rfirst_Opt_take [OF rfirst_Grp [OF this, of None]] p show ?thesis by simp
  qed
  then obtain lg' where C': "rfirst ?C (point @ fs @ t) (caps, lg) = Some (t, (caps, lg'))" by blast
  have "rfirst (Seq ?A (Seq ?B ?C)) ((sg @ body @ point @ fs) @ t) (caps, lg) = Some (t, (caps, lg'))"
    using rfirst_Seq [OF A rfirst_Seq [OF B C']] by simp
  from rfirst_Grp [OF this, of "Some ''amount''"] show ?thesis
    by (simp add: amount_re_def)
qed

lemma dot_class: "cmatch Dot x \<longleftrightarrow> x \<noteq> LF"
  by simp

lemma rfirst_line:
  assumes "LF \<notin> set w"
  shows "rfirst (seqs [Grp (Some name) (Star Dot), Opt (One (In [Ch CR])), Lit [LF]])
           (w @ [LF] @ s) (caps, lg) = Some (s, ((name, w) # caps, Some name))"
proof -
  from assms have all: "\<forall>x \<in> set w. cmatch Dot x" by auto
  have "rfirst (Star Dot) (w @ ([LF] @ s)) (caps, lg) = Some ([LF] @ s, (caps, lg))"
    by (rule rfirst_Star [OF all]) simp
  from rfirst_Grp [OF this, of "Some name"]
  have g: "rfirst (Grp (Some name) (Star Dot)) (w @ [LF] @ s) (caps, lg) =
             Some ([LF] @ s, ((name, w) # caps, Some name))"
    by simp
  have "rmatch (One (In [Ch CR])) ([LF] @ s) ((name, w) # caps, Some name) = []"
    by (rule rmatch_One_fail) simp
  from rfirst_Opt_skip [OF this]
  have o: "rfirst (Opt (One (In [Ch CR]))) ([LF] @ s) ((name, w) # caps, Some name) =
             Some ([LF] @ s, ((name, w) # caps, Some name))" .
  from rfirst_Seq [OF g rfirst_Seq [OF o rfirst_Lit]] show ?thesis by simp
qed

lemma rfirst_memo_some:
  assumes "LF \<notin> set mb"
  shows "rfirst (Opt (seqs [Lit ''E'', Grp (Some ''memo'') (Star Dot),
                       Opt (One (In [Ch CR])), Lit [LF]]))
           (''E'' @ mb @ [LF] @ s) (caps, lg) = Some (s, ((''memo'', mb) # caps, Some ''memo''))"
proof -
  have l: "rfirst (seqs [Grp (Some ''memo'') (Star Dot), Opt (One (In [Ch CR])), Lit [LF]])
             (mb @ [LF] @ s) (caps, lg) = Some (s, ((''memo'', mb) # caps, Some ''memo''))"
    by (rule rfirst_line [OF assms])
  have e: "rfirst (Lit ''E'') (''E'' @ mb @ [LF] @ s) (caps, lg) = Some (mb @ [LF] @ s, (caps, lg))"
    by (rule rfirst_Lit)
  from rfirst_Seq [OF e l]
  have "rfirst (seqs [Lit ''E'', Grp (Some ''memo'') (Star Dot),
                       Opt (One (In [Ch CR])), Lit [LF]])
           (''E'' @ mb @ [LF] @ s) (caps, lg) = Some (s, ((''memo'', mb) # caps, Some ''memo''))"
    by simp
  then show ?thesis by (rule rfirst_Opt_take)
qed

lemma rfirst_memo_none:
  "rfirst (Opt (seqs [Lit ''E'', Grp (Some ''memo'') (Star Dot),
                       Opt (One (In [Ch CR])), Lit [LF]]))
           (''$'' @ s) st = Some (''$'' @ s, st)"
proof -
  have "rmatch (Lit ''E'') (''$'' @ s) st = []"
    by (rule rmatch_Lit_fail) simp
  then have "rmatch (seqs [Lit ''E'', Grp (Some ''memo'') (Star Dot),
                       Opt (One (In [Ch CR])), Lit [LF]]) (''$'' @ s) st = []"
    unfolding seqs.simps by (rule rmatch_Seq_fail)
  then show ?thesis by (rule rfirst_Opt_skip)
qed

lemma rfirst_split_body:
  assumes cat: "LF \<notin> set cat"
    and memo: "\<forall>mb \<in> set_option memo. LF \<notin> set mb"
    and sg: "sg = [] \<or> sg = ''-''"
    and body: "body \<noteq> []" "\<forall>c \<in> set body. is_digit c \<or> c = CHR '',''"
    and point: "point = [] \<and> fs = [] \<or> point = ''.'' \<and> fs \<noteq> []"
    and fs: "\<forall>c \<in> set fs. is_digit c"
    and t: "t = [] \<or> hd t = CR \<or> hd t = LF"
  shows "rfirst (seqs [Lit ''S'', Grp (Some ''category'') (Star Dot), Opt (One (In [Ch CR])), Lit [LF],
            Opt (seqs [Lit ''E'', Grp (Some ''memo'') (Star Dot),
                       Opt (One (In [Ch CR])), Lit [LF]]),
            Lit ''$'', amount_re])
          ((''S'' @ cat @ [LF] @ memo_line memo @ ''$'' @ sg @ body @ point @ fs) @ t) ([], None) =
         Some (t, ((''amount'', sg @ body @ point @ fs) # memo_caps memo @ [(''category'', cat)],
                   Some ''amount''))"
proof -
  let ?amt = "sg @ body @ point @ fs"
  let ?M = "Opt (seqs [Lit ''E'', Grp (Some ''memo'') (Star Dot),
                       Opt (One (In [Ch CR])), Lit [LF]])"
  let ?c1 = "[(''category'', cat)]"
  have am: "rfirst amount_re (?amt @ t) (caps, lg) =
              Some (t, ((''amount'', ?amt) # caps, Some ''amount''))" for caps lg
    using rfirst_amount_re [OF sg body point fs t] by simp
  have tail: "rfirst (Seq (Lit ''$'') amount_re) (''$'' @ ?amt @ t) (caps, lg) =
                Some (t, ((''amount'', ?amt) # caps, Some ''amount''))" for caps lg
  proof -
    have d: "rfirst (Lit ''$'') (''$'' @ ?amt @ t) (caps, lg) = Some (?amt @ t, (caps, lg))"
      by (rule rfirst_Lit)
    from rfirst_Seq [OF d am] show ?thesis .
  qed
  have mt: "rfirst (Seq ?M (Seq (Lit ''$'') amount_re)) (memo_line memo @ ''$'' @ ?amt @ t)
              (?c1, Some ''category'') =
            Some (t, ((''amount'', ?amt) # memo_caps memo @ ?c1, Some ''amount''))"
  proof (cases memo)
    case None
    have n: "rfirst ?M (''$'' @ ?amt @ t) (?c1, Some ''category'') =
               Some (''$'' @ ?amt @ t, (?c1, Some ''category''))"
      by (rule rfirst_memo_none)
    from rfirst_Seq [OF n tail] None show ?thesis by simp
  next
    case (Some mb)
    with memo have "LF \<notin> set mb" by simp
    then have n: "rfirst ?M (''E'' @ mb @ [LF] @ ''$'' @ ?amt @ t) (?c1, Some ''category'') =
               Some (''$'' @ ?amt @ t, ((''memo'', mb) # ?c1, Some ''memo''))"
      by (rule rfirst_memo_some)
    from rfirst_Seq [OF n tail] Some show ?thesis by simp
  qed
  have ln: "rfirst (seqs [Grp (Some ''category'') (Star Dot), Opt (One (In [Ch CR])), Lit [LF]])
           (cat @ [LF] @ memo_line memo @ ''$'' @ ?amt @ t) ([], None) =
           Some (memo_line memo @ ''$'' @ ?amt @ t, (?c1, Some ''category''))"
    by (rule rfirst_line [OF cat])
  have sq: "seqs [Lit ''S'', Grp (Some ''category'') (Star Dot), Opt (One (In [Ch CR])), Lit [LF],
            ?M, Lit ''$'', amount_re] =
        Seq (Lit ''S'') (Seq (Grp (Some ''category'') (Star Dot)) (Seq (Opt (One (In [Ch CR])))
          (Seq (Lit [LF]) (Seq ?M (Seq (Lit ''$'') amount_re)))))"
    by simp
  have l3: "seqs [Grp (Some ''category'') (Star Dot), Opt (One (In [Ch CR])), Lit [LF]] =
        Seq (Grp (Some ''category'') (Star Dot)) (Seq (Opt (One (In [Ch CR]))) (Lit [LF]))"
    by simp
  \<comment> \<open>the three parts of the category line, then the rest\<close>
  have "rfirst (Seq (Grp (Some ''category'') (Star Dot)) (Seq (Opt (One (In [Ch CR])))
          (Seq (Lit [LF]) (Seq ?M (Seq (Lit ''$'') amount_re)))))
          (cat @ [LF] @ memo_line memo @ ''$'' @ ?amt @ t) ([], None) =
        Some (t, ((''amount'', ?amt) # memo_caps memo @ ?c1, Some ''amount''))"
  proof -
    from cat have all: "\<forall>x \<in> set cat. cmatch Dot x" by auto
    have "rfirst (Star Dot) (cat @ ([LF] @ memo_line memo @ ''$'' @ ?amt @ t)) ([], None) =
            Some ([LF] @ memo_line memo @ ''$'' @ ?amt @ t, ([], None))"
      by (rule rfirst_Star [OF all]) simp
    from rfirst_Grp [OF this, of "Some ''category''"]
    have g: "rfirst (Grp (Some ''category'') (Star Dot)) (cat @ [LF] @ memo_line memo @ ''$'' @ ?amt @ t)
               ([], None) = Some ([LF] @ memo_line memo @ ''$'' @ ?amt @ t, (?c1, Some ''category''))"
      by simp
    have "rmatch (One (In [Ch CR])) ([LF] @ memo_line memo @ ''$'' @ ?amt @ t) (?c1, Some ''category'') = []"
      by (rule rmatch_One_fail) simp
    from rfirst_Opt_skip [OF this]
    have o: "rfirst (Opt (One (In [Ch CR]))) ([LF] @ memo_line memo @ ''$'' @ ?amt @ t) (?c1, Some ''category'') =
               Some ([LF] @ memo_line memo @ ''$'' @ ?amt @ t, (?c1, Some ''category''))" .
    have lf: "rfirst (Lit [LF]) ([LF] @ memo_line memo @ ''$'' @ ?amt @ t) (?c1, Some ''category'') =
               Some (memo_line memo @ ''$'' @ ?amt @ t, (?c1, Some ''category''))"
      by (rule rfirst_Lit)
    from rfirst_Seq [OF g rfirst_Seq [OF o rfirst_Seq [OF lf mt]]] show ?thesis .
  qed
  moreover have "rfirst (Lit ''S'') (''S'' @ cat @ [LF] @ memo_line memo @ ''$'' @ ?amt @ t) ([], None) =
      Some (cat @ [LF] @ memo_line memo @ ''$'' @ ?amt @ t, ([], None))"
    by (rule rfirst_Lit)
  ultimately have "rfirst (Seq (Lit ''S'') (Seq (Grp (Some ''category'') (Star Dot)) (Seq (Opt (One (In [Ch CR])))
          (Seq (Lit [LF]) (Seq ?M (Seq (Lit ''$'') amount_re))))))
          (''S'' @ cat @ [LF] @ memo_line memo @ ''$'' @ ?amt @ t) ([], None) =
        Some (t, ((''amount'', ?amt) # memo_caps memo @ ?c1, Some ''amount''))"
    by (rule rfirst_Seq [rotated])
  then show ?thesis
    unfolding sq by simp
qed

lemma rfirst_One: "cmatch cs x \<Longrightarrow> rfirst (One cs) (x # s) st = Some (s, st)"
  by (simp add: rfirst_def)

lemma rfirst_line_end:
  assumes "cr = [] \<or> cr = [CR]" and "rest = [] \<or> (\<exists>xs. rest = LF # xs)"
  shows "rfirst (seqs line_end) (cr @ rest) st = Some (rest, st)"
proof -
  have o: "rfirst (Opt (One (In [Ch CR]))) (cr @ rest) st = Some (rest, st)"
  proof (cases "cr = []")
    case True
    from assms(2) have "rmatch (One (In [Ch CR])) rest st = []"
      by (intro rmatch_One_fail) auto
    from rfirst_Opt_skip [OF this] True show ?thesis by simp
  next
    case False
    with assms(1) have c: "cr = [CR]" by simp
    have "rfirst (One (In [Ch CR])) (CR # rest) st = Some (rest, st)"
      by (rule rfirst_One) simp
    from rfirst_Opt_take [OF this] c show ?thesis by simp
  qed
  from rfirst_Seq [OF o rfirst_Eol [OF assms(2)]] show ?thesis
    by (simp add: line_end_def)
qed

lemma utf8_decode_append:
  "utf8_decode a = Some a' \<Longrightarrow>
   utf8_decode (a @ b) = (case utf8_decode b of None \<Rightarrow> None | Some b' \<Rightarrow> Some (a' @ b'))"
proof (induction a arbitrary: a' rule: utf8_decode.induct)
  case 1
  then show ?case by (simp add: utf8_decode.simps split: option.splits)
next
  case (2 c cs)
  then show ?case
    by (auto simp: utf8_decode.simps Let_def split: if_splits list.splits option.splits)
qed

lemma utf8_decode_append_ok:
  "utf8_decode a = Some a' \<Longrightarrow> utf8_decode b = Some b' \<Longrightarrow> utf8_decode (a @ b) = Some (a' @ b')"
  by (simp add: utf8_decode_append)

lemma group_names_SPLIT:
  "group_names SPLIT = [''SPLIT'', ''category'', ''memo'', ''amount'']"
  by (simp add: SPLIT_def line_end_def amount_re_def)

lemma re_match_SPLIT:
  assumes inp: "drop pos inp = (''S'' @ cat @ [LF] @ memo_line memo @ ''$'' @ sg @ body @ point @ fs) @ cr @ rest"
    and cat: "LF \<notin> set cat"
    and memo: "\<forall>mb \<in> set_option memo. LF \<notin> set mb"
    and sg: "sg = [] \<or> sg = ''-''"
    and body: "body \<noteq> []" "\<forall>c \<in> set body. is_digit c \<or> c = CHR '',''"
    and point: "point = [] \<and> fs = [] \<or> point = ''.'' \<and> fs \<noteq> []"
    and fs: "\<forall>c \<in> set fs. is_digit c"
    and cr: "cr = [] \<or> cr = [CR]"
    and rest: "rest = [] \<or> (\<exists>xs. rest = LF # xs)"
  shows "re_match SPLIT inp pos =
           Some (Match (pos + length (''S'' @ cat @ [LF] @ memo_line memo @ ''$'' @ sg @ body @ point @ fs)
                        + length cr)
                   [(''SPLIT'', Some (''S'' @ cat @ [LF] @ memo_line memo @ ''$'' @ sg @ body @ point @ fs)),
                    (''category'', Some cat), (''memo'', memo),
                    (''amount'', Some (sg @ body @ point @ fs))]
                   (Some ''SPLIT''))"
proof -
  let ?amt = "sg @ body @ point @ fs"
  let ?block = "''S'' @ cat @ [LF] @ memo_line memo @ ''$'' @ ?amt"
  let ?body = "seqs [Lit ''S'', Grp (Some ''category'') (Star Dot), Opt (One (In [Ch CR])), Lit [LF],
            Opt (seqs [Lit ''E'', Grp (Some ''memo'') (Star Dot),
                       Opt (One (In [Ch CR])), Lit [LF]]),
            Lit ''$'', amount_re]"
  let ?caps0 = "(''amount'', ?amt) # memo_caps memo @ [(''category'', cat)]"
  from cr rest have t: "cr @ rest = [] \<or> hd (cr @ rest) = CR \<or> hd (cr @ rest) = LF" by auto
  from rfirst_split_body [OF cat memo sg body point fs t]
  have "rfirst ?body (?block @ cr @ rest) ([], None) = Some (cr @ rest, (?caps0, Some ''amount''))" .
  from rfirst_Grp [OF this, of "Some ''SPLIT''"]
  have g: "rfirst (Grp (Some ''SPLIT'') ?body) (?block @ cr @ rest) ([], None) =
            Some (cr @ rest, ((''SPLIT'', ?block) # ?caps0, Some ''SPLIT''))"
    by simp
  have le: "rfirst (seqs line_end) (cr @ rest) ((''SPLIT'', ?block) # ?caps0, Some ''SPLIT'') =
            Some (rest, ((''SPLIT'', ?block) # ?caps0, Some ''SPLIT''))"
    by (rule rfirst_line_end [OF cr rest])
  have sq: "SPLIT = Seq (Grp (Some ''SPLIT'') ?body) (seqs line_end)"
    by (simp add: SPLIT_def line_end_def)
  from rfirst_Seq [OF g le] inp
  have "rfirst SPLIT (drop pos inp) ([], None) =
          Some (rest, ((''SPLIT'', ?block) # ?caps0, Some ''SPLIT''))"
    unfolding sq by simp
  from re_match_rfirst [OF this]
  have rm: "re_match SPLIT inp pos =
     Some (Match (length inp - length rest)
             (map (\<lambda>n. (n, map_of ((''SPLIT'', ?block) # ?caps0) n)) (group_names SPLIT))
             (Some ''SPLIT''))" .
  have mm: "map_of (memo_caps memo @ [(''category'', cat)]) ''memo'' = memo"
    by (cases memo) simp_all
  have mc: "map_of (memo_caps memo @ [(''category'', cat)]) ''category'' = Some cat"
    by (cases memo) simp_all
  have gd: "map (\<lambda>n. (n, map_of ((''SPLIT'', ?block) # ?caps0) n)) (group_names SPLIT) =
        [(''SPLIT'', Some ?block), (''category'', Some cat), (''memo'', memo), (''amount'', Some ?amt)]"
    unfolding group_names_SPLIT using mm mc by simp
  from inp have "length (drop pos inp) = length ?block + length cr + length rest"
    by (simp only: length_append add.assoc)
  then have "length inp - pos = length ?block + length cr + length rest" by simp
  moreover have "0 < length ?block" by simp
  ultimately have "length inp - length rest = pos + length ?block + length cr" by linarith
  with rm gd show ?thesis by (simp only:)
qed

lemma first_match_SPLIT:
  assumes "drop pos inp = CHR ''S'' # more"
  shows "first_match compiled_record_regexes inp pos = re_match SPLIT inp pos"
proof -
  have "re_match HEADER inp pos = None" "re_match DATE inp pos = None"
    "re_match T_AMOUNT inp pos = None" "re_match U_AMOUNT inp pos = None"
    "re_match CLEARED inp pos = None" "re_match PAYEE inp pos = None"
    "re_match MEMO inp pos = None" "re_match CATEGORY inp pos = None"
    "re_match ADDRESS inp pos = None" "re_match N_REC inp pos = None"
    "re_match END inp pos = None"
    by (simp_all add: re_match_def assms HEADER_def DATE_def T_AMOUNT_def U_AMOUNT_def CLEARED_def
        PAYEE_def MEMO_def CATEGORY_def ADDRESS_def N_REC_def END_def line_end_def)
  then show ?thesis
    by (cases "re_match SPLIT inp pos") (simp_all add: compiled_record_regexes_def)
qed

lemma decode_block:
  assumes cat: "utf8_decode cat = Some c"
    and memo: "rel_option (\<lambda>mb m'. LF \<notin> set mb \<and> utf8_decode mb = Some m') memo mm"
    and ascii: "\<forall>x \<in> set amt. (of_char x :: nat) < 128"
  shows "\<exists>w. utf8_decode (''S'' @ cat @ [LF] @ memo_line memo @ ''$'' @ amt) = Some w"
proof -
  have a1: "utf8_decode ''S'' = Some (map of_char ''S'')" by (rule utf8_decode_ascii) simp
  have a2: "utf8_decode [LF] = Some (map of_char [LF])" by (rule utf8_decode_ascii) simp
  have a0: "utf8_decode ''E'' = Some (map of_char ''E'')" by (rule utf8_decode_ascii) simp
  have a3: "\<exists>e. utf8_decode (memo_line memo) = Some e"
  proof (cases memo)
    case None
    have "utf8_decode [] = Some (map of_char [])" by (rule utf8_decode_ascii) simp
    with None show ?thesis by simp
  next
    case (Some mb)
    with memo obtain m' where "utf8_decode mb = Some m'" by (cases mm) simp_all
    from utf8_decode_append_ok [OF a0 utf8_decode_append_ok [OF this a2]] Some
    show ?thesis by simp
  qed
  then obtain e where a3': "utf8_decode (memo_line memo) = Some e" ..
  from ascii have "\<forall>x \<in> set (''$'' @ amt). (of_char x :: nat) < 128" by simp
  then have a4: "utf8_decode (''$'' @ amt) = Some (map of_char (''$'' @ amt))"
    by (rule utf8_decode_ascii)
  from utf8_decode_append_ok [OF a1 utf8_decode_append_ok [OF cat
         utf8_decode_append_ok [OF a2 utf8_decode_append_ok [OF a3' a4]]]]
  show ?thesis by simp
qed

lemma recordize_step:
  assumes "first_match compiled_record_regexes inp pos = Some m"
    and "decode_dict (groupdict m) = Inr d"
  shows "recordize inp pos =
           (QIFRecord (lastgroup m) d # fst (recordize inp (m_end m + 1)),
            snd (recordize inp (m_end m + 1)))"
  by (subst recordize.simps) (simp add: assms split: prod.splits)

text \<open>
  Claim C3, as the code has it. A split block at the cursor is a category line, \<open>S\<close>
  and the category, an optional memo line, \<open>E\<close> and the memo, and an amount line,
  \<open>$\<close> and an amount: an optional minus sign, digits and commas (at least one), and an
  optional point with digits after it; the amount line ends the input or its line (a
  carriage return before the line feed is allowed, and one that ends the category or the
  memo is part of it). When category and memo are UTF-8, the scanner recognizes the
  whole block as one SPLIT record, which ends where the amount line ends: the match
  holds the block, the category, the memo (\<open>None\<close> when there is no memo line) and the
  amount, the generator yields that one record and goes on after the line feed. Its cast
  has the category, the amount (the signed decimal value of the text without commas)
  and, when there is a memo line, the memo: three sub-fields with a memo line and two
  without. When the amount has no digit at all, the cast raises ValueError.
\<close>

theorem split_block:
  assumes inp: "drop pos inp =
        (''S'' @ cat @ [LF] @ memo_line memo @ ''$'' @ sg @ body @ point @ fs) @ cr @ rest"
    and cat: "LF \<notin> set cat" "utf8_decode cat = Some c"
    and memo: "rel_option (\<lambda>mb m'. LF \<notin> set mb \<and> utf8_decode mb = Some m') memo mm"
    and sg: "sg = [] \<or> sg = ''-''"
    and body: "body \<noteq> []" "\<forall>c \<in> set body. is_digit c \<or> c = CHR '',''"
    and point: "point = [] \<and> fs = [] \<or> point = ''.'' \<and> fs \<noteq> []"
    and fs: "\<forall>c \<in> set fs. is_digit c"
    and cr: "cr = [] \<or> cr = [CR]"
    and rest: "rest = [] \<or> (\<exists>xs. rest = LF # xs)"
  shows "\<exists>m w.
       first_match compiled_record_regexes inp pos = Some m
     \<and> lastgroup m = Some ''SPLIT''
     \<and> m_end m = pos + length (''S'' @ cat @ [LF] @ memo_line memo @ ''$'' @ sg @ body @ point @ fs)
                  + length cr
     \<and> groupdict m =
          [(''SPLIT'', Some (''S'' @ cat @ [LF] @ memo_line memo @ ''$'' @ sg @ body @ point @ fs)),
           (''category'', Some cat), (''memo'', memo), (''amount'', Some (sg @ body @ point @ fs))]
     \<and> recordize inp pos =
          (QIFRecord (Some ''SPLIT'')
             [(''SPLIT'', Some w), (''category'', Some c), (''memo'', mm),
              (''amount'', Some (map of_char (sg @ body @ point @ fs)))]
           # fst (recordize inp (m_end m + 1)), snd (recordize inp (m_end m + 1)))
     \<and> cast_record (QIFRecord (Some ''SPLIT'')
             [(''SPLIT'', Some w), (''category'', Some c), (''memo'', mm),
              (''amount'', Some (map of_char (sg @ body @ point @ fs)))]) =
         (if filter is_digit body = [] \<and> fs = [] then Inl ValueError
          else Inr (QIFRecord (Some ''SPLIT'')
                 ([(''category'', PyStr c),
                   (''amount'', PyFloat ((if sg = [] then 1 else - 1) *
                      (of_nat (dec (map of_char (filter is_digit body))) +
                       of_nat (dec (map of_char fs)) / 10 ^ length fs)))] @
                  (case mm of None \<Rightarrow> [] | Some m' \<Rightarrow> [(''memo'', PyStr m')]))))"
proof -
  let ?a = "sg @ body @ point @ fs"
  let ?block = "''S'' @ cat @ [LF] @ memo_line memo @ ''$'' @ ?a"
  let ?M = "Match (pos + length ?block + length cr)
                   [(''SPLIT'', Some ?block), (''category'', Some cat), (''memo'', memo),
                    (''amount'', Some ?a)]
                   (Some ''SPLIT'')"
  from memo have memo': "\<forall>mb \<in> set_option memo. LF \<notin> set mb"
    by (cases memo; cases mm) simp_all
  have rm: "re_match SPLIT inp pos = Some ?M"
    by (rule re_match_SPLIT [OF inp cat(1) memo' sg body point fs cr rest])
  from inp have "drop pos inp = CHR ''S'' # (cat @ [LF] @ memo_line memo @ ''$'' @ ?a) @ cr @ rest"
    by simp
  from first_match_SPLIT [OF this] rm
  have fm: "first_match compiled_record_regexes inp pos = Some ?M" by simp
  have ascii: "\<forall>c \<in> set ?a. (of_char c :: nat) < 128"
    using sg body(2) point fs by (auto dest: is_digit_ascii)
  from decode_block [OF cat(2) memo ascii] obtain w where
    w: "utf8_decode ?block = Some w" ..
  let ?d = "[(''SPLIT'', Some w), (''category'', Some c), (''memo'', mm),
             (''amount'', Some (map of_char ?a))]"
  have dm: "decode_val memo = Inr mm"
    using memo by (cases memo; cases mm) simp_all
  have da: "decode_val (Some ?a) = Inr (Some (map of_char ?a))"
    using utf8_decode_ascii [OF ascii] by simp
  have db: "decode_val (Some ?block) = Inr (Some w)"
    using w by simp
  have dc: "decode_val (Some cat) = Inr (Some c)"
    using cat(2) by simp
  have dd: "decode_dict (groupdict ?M) = Inr ?d"
    by (simp only: match_obj.sel decode_dict.simps db dc dm da sum.case)
  have rz: "recordize inp pos =
          (QIFRecord (Some ''SPLIT'') ?d # fst (recordize inp (m_end ?M + 1)),
           snd (recordize inp (m_end ?M + 1)))"
    using recordize_step [OF fm dd] by (simp only: match_obj.sel)
  let ?sg = "map of_char sg :: nat list" and ?ds = "map of_char (filter is_digit body) :: nat list"
  let ?pt = "map of_char point :: nat list" and ?fs = "map of_char fs :: nat list"
  have fl: "filter (\<lambda>c. c \<noteq> 44) (map of_char ?a) = ?sg @ ?ds @ ?pt @ ?fs"
    using sg point filter_commas(1) [OF body(2)] filter_digits(1) [OF fs] by auto
  have sg': "?sg = [] \<or> ?sg = [45]" using sg by auto
  have pt': "?pt = [] \<and> ?fs = [] \<or> ?pt = [46] \<and> ?fs \<noteq> []" using point by auto
  note pf = py_float_decimal [OF sg' filter_commas(2) [OF body(2)] filter_digits(2) [OF fs] pt']
  have "map_of ?d ''amount'' = Some (Some (map of_char ?a))" by simp
  then have fi: "float_item ?d ''amount'' = py_float (filter (\<lambda>c. c \<noteq> 44) (map of_char ?a))"
    by (rule float_item_some)
  have gc: "getitem ?d ''category'' = Inr (Some c)" by (simp add: getitem_def)
  have mmemo: "map_of ?d ''memo'' = Some mm" by simp
  have mcase: "(case Some mm of Some (Some memo) \<Rightarrow> [(''memo'', PyStr memo)] | _ \<Rightarrow> []) =
               (case mm of None \<Rightarrow> [] | Some m' \<Rightarrow> [(''memo'', PyStr m')])"
    by (cases mm) simp_all
  have cs: "map_of record_casts ''SPLIT'' = Some cast_split" by (simp add: record_casts_def)
  have "cast_record (QIFRecord (Some ''SPLIT'') ?d) =
          sum_bind (float_item ?d ''amount'')
            (\<lambda>a. Inr (QIFRecord (Some ''SPLIT'')
               ([(''category'', PyStr c), (''amount'', PyFloat a)] @
                (case mm of None \<Rightarrow> [] | Some m' \<Rightarrow> [(''memo'', PyStr m')]))))"
    by (simp only: cast_record_def QIFRecord.sel option.case cs cast_split_def Let_def gc mmemo
        mcase sum_bind_def sum.case py_of.simps)
  also have "\<dots> =
         (if filter is_digit body = [] \<and> fs = [] then Inl ValueError
          else Inr (QIFRecord (Some ''SPLIT'')
                 ([(''category'', PyStr c),
                   (''amount'', PyFloat ((if sg = [] then 1 else - 1) *
                      (of_nat (dec ?ds) + of_nat (dec ?fs) / 10 ^ length fs)))] @
                  (case mm of None \<Rightarrow> [] | Some m' \<Rightarrow> [(''memo'', PyStr m')]))))"
    unfolding fi fl pf by (simp add: sum_bind_def)
  finally have cr': "cast_record (QIFRecord (Some ''SPLIT'') ?d) =
         (if filter is_digit body = [] \<and> fs = [] then Inl ValueError
          else Inr (QIFRecord (Some ''SPLIT'')
                 ([(''category'', PyStr c),
                   (''amount'', PyFloat ((if sg = [] then 1 else - 1) *
                      (of_nat (dec ?ds) + of_nat (dec ?fs) / 10 ^ length fs)))] @
                  (case mm of None \<Rightarrow> [] | Some m' \<Rightarrow> [(''memo'', PyStr m')]))))" .
  have sel: "lastgroup ?M = Some ''SPLIT''"
    "m_end ?M = pos + length ?block + length cr"
    "groupdict ?M = [(''SPLIT'', Some ?block), (''category'', Some cat), (''memo'', memo),
                    (''amount'', Some ?a)]"
    by (simp_all only: match_obj.sel)
  show ?thesis
    apply (rule exI [of _ ?M])
    apply (rule exI [of _ w])
    apply (intro conjI)
         apply (rule fm)
        apply (rule sel(1))
       apply (rule sel(2))
      apply (rule sel(3))
     apply (rule rz)
    apply (rule cr')
    done
qed

theorem split_block_witness:
  "recordize (''Sfood'' @ [LF] @ ''Elunch'' @ [LF] @ ''$-12.50'' @ [LF]) 0 =
     ([QIFRecord (Some ''SPLIT'')
         [(''SPLIT'', Some [83, 102, 111, 111, 100, 10, 69, 108, 117, 110, 99, 104, 10,
                            36, 45, 49, 50, 46, 53, 48]),
          (''category'', Some [102, 111, 111, 100]),
          (''memo'', Some [108, 117, 110, 99, 104]),
          (''amount'', Some [45, 49, 50, 46, 53, 48])]], None)
   \<and> cast_record (QIFRecord (Some ''SPLIT'')
         [(''SPLIT'', Some [83, 102, 111, 111, 100, 10, 69, 108, 117, 110, 99, 104, 10,
                            36, 45, 49, 50, 46, 53, 48]),
          (''category'', Some [102, 111, 111, 100]),
          (''memo'', Some [108, 117, 110, 99, 104]),
          (''amount'', Some [45, 49, 50, 46, 53, 48])]) =
       Inr (QIFRecord (Some ''SPLIT'')
              [(''category'', PyStr [102, 111, 111, 100]), (''amount'', PyFloat (- 25 / 2)),
               (''memo'', PyStr [108, 117, 110, 99, 104])])
   \<and> recordize (''Sfood'' @ [LF] @ ''$3'' @ [LF]) 0 =
     ([QIFRecord (Some ''SPLIT'')
         [(''SPLIT'', Some [83, 102, 111, 111, 100, 10, 36, 51]),
          (''category'', Some [102, 111, 111, 100]),
          (''memo'', None),
          (''amount'', Some [51])]], None)
   \<and> cast_record (QIFRecord (Some ''SPLIT'')
         [(''SPLIT'', Some [83, 102, 111, 111, 100, 10, 36, 51]),
          (''category'', Some [102, 111, 111, 100]),
          (''memo'', None),
          (''amount'', Some [51])]) =
       Inr (QIFRecord (Some ''SPLIT'')
              [(''category'', PyStr [102, 111, 111, 100]), (''amount'', PyFloat 3)])"
proof -
  let ?inp = "''Sfood'' @ [LF] @ ''Elunch'' @ [LF] @ ''$-12.50'' @ [LF]"
  have h1: "drop 0 ?inp =
        (''S'' @ ''food'' @ [LF] @ memo_line (Some ''lunch'') @ ''$'' @ ''-'' @ ''12'' @ ''.'' @ ''50'')
        @ [] @ [LF]"
    by simp
  have h2: "LF \<notin> set ''food''" by simp
  have h3: "utf8_decode ''food'' = Some [102, 111, 111, 100]" by code_simp
  have h4: "rel_option (\<lambda>mb m'. LF \<notin> set mb \<and> utf8_decode mb = Some m')
              (Some ''lunch'') (Some [108, 117, 110, 99, 104])"
    by code_simp
  have h5: "''-'' = [] \<or> ''-'' = ''-''" by simp
  have h6: "''12'' \<noteq> []" by simp
  have h7: "\<forall>c \<in> set ''12''. is_digit c \<or> c = CHR '',''" by (simp add: is_digit_def)
  have h8: "''.'' = [] \<and> ''50'' = [] \<or> ''.'' = ''.'' \<and> ''50'' \<noteq> []" by simp
  have h9: "\<forall>c \<in> set ''50''. is_digit c" by (simp add: is_digit_def)
  have h10: "([] :: bytes) = [] \<or> [] = [CR]" by simp
  have h11: "[LF] = [] \<or> (\<exists>xs. [LF] = LF # xs)" by simp
  from split_block [OF h1 h2 h3 h4 h5 h6 h7 h8 h9 h10 h11]
  obtain m where fm: "first_match compiled_record_regexes ?inp 0 = Some m"
    and lg: "lastgroup m = Some ''SPLIT''"
    by blast
  have r1: "recordize ?inp 0 =
     ([QIFRecord (Some ''SPLIT'')
         [(''SPLIT'', Some [83, 102, 111, 111, 100, 10, 69, 108, 117, 110, 99, 104, 10,
                            36, 45, 49, 50, 46, 53, 48]),
          (''category'', Some [102, 111, 111, 100]),
          (''memo'', Some [108, 117, 110, 99, 104]),
          (''amount'', Some [45, 49, 50, 46, 53, 48])]], None)"
    by code_simp
  have c1: "cast_record (QIFRecord (Some ''SPLIT'')
         [(''SPLIT'', Some [83, 102, 111, 111, 100, 10, 69, 108, 117, 110, 99, 104, 10,
                            36, 45, 49, 50, 46, 53, 48]),
          (''category'', Some [102, 111, 111, 100]),
          (''memo'', Some [108, 117, 110, 99, 104]),
          (''amount'', Some [45, 49, 50, 46, 53, 48])]) =
       Inr (QIFRecord (Some ''SPLIT'')
              [(''category'', PyStr [102, 111, 111, 100]), (''amount'', PyFloat (- 25 / 2)),
               (''memo'', PyStr [108, 117, 110, 99, 104])])"
    by (simp add: cast_record_def record_casts_def cast_split_def float_item_def getitem_def
        sum_bind_def py_float_def strip_def is_space_def is_dig_def dec_def Let_def)
  have r2: "recordize (''Sfood'' @ [LF] @ ''$3'' @ [LF]) 0 =
     ([QIFRecord (Some ''SPLIT'')
         [(''SPLIT'', Some [83, 102, 111, 111, 100, 10, 36, 51]),
          (''category'', Some [102, 111, 111, 100]),
          (''memo'', None),
          (''amount'', Some [51])]], None)"
    by code_simp
  have c2: "cast_record (QIFRecord (Some ''SPLIT'')
         [(''SPLIT'', Some [83, 102, 111, 111, 100, 10, 36, 51]),
          (''category'', Some [102, 111, 111, 100]),
          (''memo'', None),
          (''amount'', Some [51])]) =
       Inr (QIFRecord (Some ''SPLIT'')
              [(''category'', PyStr [102, 111, 111, 100]), (''amount'', PyFloat 3)])"
    by (simp add: cast_record_def record_casts_def cast_split_def float_item_def getitem_def
        sum_bind_def py_float_def strip_def is_space_def is_dig_def dec_def Let_def)
  from fm lg r1 c1 r2 c2 show ?thesis by simp
qed

text \<open>
  Claim C3 as stated, for every amount line that begins with \<open>$\<close>, does not hold. The
  block \<open>Sfood\<close>, \<open>$.50\<close> is not recognized at all, since the pattern wants a digit
  or a comma before the point: the parse ends with SyntaxError at offset 0. The block
  \<open>Sfood\<close>, \<open>$,\<close> is recognized as one SPLIT record, and casting it raises ValueError
  instead of producing the two sub-fields.
\<close>

theorem split_amount_counterexample:
  "first_match compiled_record_regexes (''Sfood'' @ [LF] @ ''$.50'' @ [LF]) 0 = None
   \<and> parse (Bytes (''Sfood'' @ [LF] @ ''$.50'' @ [LF])) =
       ([], Some (SyntaxError (error_message 0 (''Sfood'' @ [LF] @ ''$.50'' @ [LF]))))
   \<and> recordize (''Sfood'' @ [LF] @ ''$,'' @ [LF]) 0 =
       ([QIFRecord (Some ''SPLIT'')
           [(''SPLIT'', Some [83, 102, 111, 111, 100, 10, 36, 44]),
            (''category'', Some [102, 111, 111, 100]),
            (''memo'', None),
            (''amount'', Some [44])]], None)
   \<and> cast_record (QIFRecord (Some ''SPLIT'')
           [(''SPLIT'', Some [83, 102, 111, 111, 100, 10, 36, 44]),
            (''category'', Some [102, 111, 111, 100]),
            (''memo'', None),
            (''amount'', Some [44])]) = Inl ValueError"
  by code_simp

section \<open>The transaction builder groups records\<close>








lemma parse_loop_casts_ok:
  assumes "casts_ok rs"
  shows "parse_loop ty recs rs out = (fst (parse_loop ty recs rs None), out)
       \<and> length (fst (parse_loop ty recs rs None)) = length (filter (\<lambda>r. rtype r = Some ''END'') rs)"
  using assms
proof (induction rs arbitrary: ty recs)
  case Nil
  then show ?case by simp
next
  case (Cons r rs)
  from Cons.prems have rs: "casts_ok rs"
    by (simp add: casts_ok_def)
  show ?case
  proof (cases "rtype r = Some ''END''")
    case True
    with Cons.IH [OF rs, of TTYPE_NORMAL "[]"] show ?thesis
      by (simp add: case_prod_beta)
  next
    case False
    with Cons.prems obtain t where t: "cast_record r = Inr t"
      by (auto simp: casts_ok_def split: sum.splits)
    with False Cons.IH [OF rs, of "if rtype r = Some ''SPLIT'' then TTYPE_SPLIT else ty" "recs @ [t]"]
    show ?thesis by simp
  qed
qed

lemma parse_loop_no_END:
  assumes "casts_ok rs" and "\<forall>r \<in> set rs. rtype r \<noteq> Some ''END''"
  shows "parse_loop ty recs rs out = ([], out)"
proof -
  from assms(2) have "filter (\<lambda>r. rtype r = Some ''END'') rs = []"
    by (simp add: filter_empty_conv)
  with parse_loop_casts_ok [OF assms(1), of ty recs out] show ?thesis
    by simp
qed

lemma parse_loop_append:
  assumes "casts_ok pre" and "pre = [] \<or> rtype (last pre) = Some ''END''"
  shows "parse_loop TTYPE_NORMAL [] (pre @ tail) out =
           (fst (parse_loop TTYPE_NORMAL [] pre None) @ fst (parse_loop TTYPE_NORMAL [] tail out),
            snd (parse_loop TTYPE_NORMAL [] tail out))"
proof -
  have "pre \<noteq> [] \<Longrightarrow> casts_ok pre \<Longrightarrow> rtype (last pre) = Some ''END'' \<Longrightarrow>
        parse_loop ty recs (pre @ tail) out =
           (fst (parse_loop ty recs pre None) @ fst (parse_loop TTYPE_NORMAL [] tail out),
            snd (parse_loop TTYPE_NORMAL [] tail out))" for ty recs
  proof (induction pre arbitrary: ty recs)
    case Nil
    then show ?case by simp
  next
    case (Cons r pre)
    from Cons.prems(2) have ok: "casts_ok pre"
      by (simp add: casts_ok_def)
    show ?case
    proof (cases "pre = []")
      case True
      with Cons.prems(3) show ?thesis by (simp add: case_prod_beta)
    next
      case False
      with Cons.prems(3) have l: "rtype (last pre) = Some ''END''" by simp
      note IH = Cons.IH [OF False ok l]
      show ?thesis
      proof (cases "rtype r = Some ''END''")
        case True
        with IH [of TTYPE_NORMAL "[]"] show ?thesis by (simp add: case_prod_beta)
      next
        case e: False
        with Cons.prems(2) obtain t where t: "cast_record r = Inr t"
          by (auto simp: casts_ok_def split: sum.splits)
        with e IH [of "if rtype r = Some ''SPLIT'' then TTYPE_SPLIT else ty" "recs @ [t]"]
        show ?thesis by simp
      qed
    qed
  qed
  with assms show ?thesis
    by (cases "pre = []") (simp_all add: case_prod_beta)
qed



section \<open>Ends of the iteration\<close>



text \<open>
  Claim C7, as the code has it. When the input is exhausted with no exception of the
  scanner and the last records (which cast) are not followed by an END record,
  \<open>parse\<close> ends normally: it raises nothing, it yields the transactions of the groups
  that an END record closes, and the records after the last END record are dropped.
\<close>

theorem truncated_input_dropped:
  assumes "recordize inp 0 = (pre @ tail, None)"
    and "pre = [] \<or> rtype (last pre) = Some ''END''"
    and "\<forall>r \<in> set tail. rtype r \<noteq> Some ''END''"
    and "casts_ok (pre @ tail)"
  shows "parse (Bytes inp) = (fst (parse_loop TTYPE_NORMAL [] pre None), None)
       \<and> length (fst (parse (Bytes inp))) = length (filter (\<lambda>r. rtype r = Some ''END'') pre)"
proof -
  from assms(4) have pre: "casts_ok pre" and tail: "casts_ok tail"
    by (simp_all add: casts_ok_def)
  from assms(1) have "parse (Bytes inp) = parse_loop TTYPE_NORMAL [] (pre @ tail) None"
    by (simp add: parse_def)
  also have "\<dots> = (fst (parse_loop TTYPE_NORMAL [] pre None) @ fst (parse_loop TTYPE_NORMAL [] tail None),
            snd (parse_loop TTYPE_NORMAL [] tail None))"
    by (rule parse_loop_append [OF pre assms(2)])
  also have "parse_loop TTYPE_NORMAL [] tail None = ([], None)"
    by (rule parse_loop_no_END [OF tail assms(3)])
  finally have "parse (Bytes inp) = (fst (parse_loop TTYPE_NORMAL [] pre None), None)"
    by simp
  with parse_loop_casts_ok [OF pre, of TTYPE_NORMAL "[]" None] show ?thesis
    by simp
qed

theorem truncated_input_dropped_witness:
  "parse (Bytes (''T1'' @ [LF] @ ''^'' @ [LF] @ ''PA'' @ [LF])) =
     ([QIFTransaction ''NORMAL'' [QIFRecord (Some ''T_AMOUNT'') [(''amount'', PyFloat 1)]]], None)"
proof -
  let ?inp = "''T1'' @ [LF] @ ''^'' @ [LF] @ ''PA'' @ [LF]"
  let ?pre = "[QIFRecord (Some ''T_AMOUNT'') [(''T_AMOUNT'', Some [84, 49]), (''amount'', Some [49])],
              QIFRecord (Some ''END'') [(''END'', Some [94])]]"
  let ?tail = "[QIFRecord (Some ''PAYEE'') [(''PAYEE'', Some [80, 65]), (''value'', Some [65])]]"
  have h1: "recordize ?inp 0 = (?pre @ ?tail, None)"
    by code_simp
  have h2: "?pre = [] \<or> rtype (last ?pre) = Some ''END''"
    by simp
  have h3: "\<forall>r \<in> set ?tail. rtype r \<noteq> Some ''END''"
    by simp
  have h4: "casts_ok (?pre @ ?tail)"
    by code_simp
  have "fst (parse_loop TTYPE_NORMAL [] ?pre None) =
          [QIFTransaction ''NORMAL'' [QIFRecord (Some ''T_AMOUNT'') [(''amount'', PyFloat 1)]]]"
    by code_simp
  with truncated_input_dropped [OF h1 h2 h3 h4] show ?thesis
    by simp
qed

text \<open>
  Claim C7 as stated asks for an exception. On the input \<open>PA\<close> followed by a line feed
  the scanner yields one PAYEE record and no END record, and \<open>parse\<close> ends with no
  transaction and no exception.
\<close>

theorem truncated_input_counterexample:
  "recordize (''PA'' @ [LF]) 0 =
     ([QIFRecord (Some ''PAYEE'') [(''PAYEE'', Some [80, 65]), (''value'', Some [65])]], None)
   \<and> parse (Bytes (''PA'' @ [LF])) = ([], None)"
  by code_simp

section \<open>Input forms\<close>

text \<open>
  Claim C10. For the empty \<open>str\<close> and for the empty bytes object \<open>parse\<close> yields no
  transaction and ends without an exception.
\<close>

theorem empty_input: "parse (Str []) = ([], None) \<and> parse (Bytes []) = ([], None)"
  by (simp add: parse_def recordize.simps re_match_def compiled_record_regexes_def HEADER_def DATE_def
      T_AMOUNT_def U_AMOUNT_def CLEARED_def PAYEE_def MEMO_def CATEGORY_def ADDRESS_def
      N_REC_def SPLIT_def END_def line_end_def amount_re_def)

text \<open>
  Claim C9. A \<open>str\<close> argument is encoded to UTF-8 before anything else is done, so
  \<open>parse\<close> gives for a \<open>str\<close> what it gives for the bytes of its UTF-8 encoding: the
  same transactions and the same end of the iteration.
\<close>

theorem str_bytes_same:
  assumes "utf8_encode s = Some b"
  shows "parse (Str s) = parse (Bytes b)"
  using assms by (simp add: parse_def)

theorem str_bytes_same_witness:
  "parse (Str [84, 49, 10, 94]) = parse (Bytes (''T1'' @ [LF] @ ''^''))"
proof -
  have "utf8_encode [84, 49, 10, 94] = Some (''T1'' @ [LF] @ ''^'')" by code_simp
  from str_bytes_same [OF this] show ?thesis .
qed

end
